theory Spec2Isabelle
  imports Complex_Main "HOL-Library.Sublist"
begin

section \<open>Python strings\<close>

text \<open>
  A Python \<open>str\<close> is modelled as a \<open>string\<close> whose characters are the code points
  below 256 (one \<open>char\<close> per code point). The character classes below are the ones
  Python uses on that range.
\<close>

text \<open>\<open>str.isspace\<close> on one character, which is also the regular expression class \<open>\s\<close>.\<close>

definition isspace :: "char \<Rightarrow> bool" where
  "isspace c = (c \<in> set [CHR 0x09, CHR 0x0A, CHR 0x0B, CHR 0x0C, CHR 0x0D, CHR 0x1C,
                           CHR 0x1D, CHR 0x1E, CHR 0x1F, CHR 0x20, CHR 0x85, CHR 0xA0])"

text \<open>The line boundaries of \<open>str.splitlines\<close>.\<close>

definition is_linebreak :: "char \<Rightarrow> bool" where
  "is_linebreak c = (c \<in> set [CHR 0x0A, CHR 0x0B, CHR 0x0C, CHR 0x0D, CHR 0x1C,
                                CHR 0x1D, CHR 0x1E, CHR 0x85])"

text \<open>\<open>s.strip()\<close>\<close>

definition strip :: "string \<Rightarrow> string" where
  "strip s = rev (dropWhile isspace (rev (dropWhile isspace s)))"

text \<open>\<open>sub in s\<close>; \<open>s.startswith(p)\<close> is \<open>prefix p s\<close>.\<close>

fun str_contains :: "string \<Rightarrow> string \<Rightarrow> bool" where
  "str_contains sub [] = (sub = [])"
| "str_contains sub (c # cs) = (prefix sub (c # cs) \<or> str_contains sub cs)"

text \<open>\<open>s.split(sep, 1)\<close> for a non-empty separator: one part when \<open>sep\<close> does not occur,
  otherwise the text before and the text after its leftmost occurrence.\<close>

fun split_once :: "string \<Rightarrow> string \<Rightarrow> string list" where
  "split_once sep [] = [[]]"
| "split_once sep (c # cs) =
     (if prefix sep (c # cs) then [[], drop (length sep) (c # cs)]
      else (case split_once sep cs of
              [a, b] \<Rightarrow> [c # a, b]
            | _ \<Rightarrow> [c # cs]))"

text \<open>\<open>s.splitlines()\<close>: \<open>cur\<close> holds the characters of the current line, reversed.
  A carriage return followed by a line feed is one boundary; a final boundary opens no
  further line.\<close>

fun splitlines_from :: "string \<Rightarrow> string \<Rightarrow> string list" where
  "splitlines_from cur [] = (if cur = [] then [] else [rev cur])"
| "splitlines_from cur (c # cs) =
     (if is_linebreak c then
        (case cs of
           d # ds \<Rightarrow>
             if c = CHR 0x0D \<and> d = CHR 0x0A then rev cur # splitlines_from [] ds
             else rev cur # splitlines_from [] (d # ds)
         | [] \<Rightarrow> [rev cur])
      else splitlines_from (c # cur) cs)"

definition splitlines :: "string \<Rightarrow> string list" where
  "splitlines s = splitlines_from [] s"

text \<open>\<open>sep.join(xs)\<close>\<close>

fun join :: "string \<Rightarrow> string list \<Rightarrow> string" where
  "join sep [] = []"
| "join sep [x] = x"
| "join sep (x # y # ys) = x @ sep @ join sep (y # ys)"

text \<open>\<open>str(i)\<close> for an integer: its decimal digits, with a sign when negative.\<close>

definition digit_char :: "nat \<Rightarrow> char" where
  "digit_char d = ''0123456789'' ! d"

fun digits :: "nat \<Rightarrow> string" where
  "digits n = (if n < 10 then [digit_char n] else digits (n div 10) @ [digit_char (n mod 10)])"

declare digits.simps [simp del]

definition str_int :: "int \<Rightarrow> string" where
  "str_int i = (if i < 0 then CHR ''-'' # digits (nat (- i)) else digits (nat i))"

text \<open>An \<open>OrderedDict\<close> used as an ordered set: \<open>d[c] = None\<close> on the list of its keys.
  A key already present keeps its position.\<close>

definition od_set :: "'a list \<Rightarrow> 'a \<Rightarrow> 'a list" where
  "od_set ks c = (if c \<in> set ks then ks else ks @ [c])"

section \<open>Answer assembly (agent\_service.py)\<close>

subsection \<open>Citation extraction\<close>

text \<open>The body of the \<open>for line in part.splitlines()\<close> loop of \<open>extract_citations\<close>:
  the citations list after one line.\<close>

definition extract_line :: "string list \<Rightarrow> string \<Rightarrow> string list" where
  "extract_line citations line0 =
     (let line = strip line0 in
      if prefix ''-'' line then
        (let c = strip (drop 1 line) in
         if str_contains ''Page N/A'' c then citations else citations @ [c])
      else citations)"

definition extract_citations :: "string \<Rightarrow> string list" where
  "extract_citations text =
     (if text = [] \<or> \<not> str_contains ''Citations:'' text then []
      else (case split_once ''Citations:'' text of
              [_, part] \<Rightarrow> foldl extract_line [] (splitlines part)
            | _ \<Rightarrow> []))"

subsection \<open>Removing a citation block of the reasoning loop\<close>

text \<open>Whether \<open>s\<close> starts with a match of the regular expression
  \<open>\n\s*Citations\s*:\s*\n\<close>. Neither \<open>C\<close> nor \<open>:\<close> is white space, so the first two
  \<open>\s*\<close> take the whole run of white space; the last one, followed by \<open>\n\<close>, matches
  when the run of white space after the colon contains a line feed.\<close>

definition marker_word :: string where
  "marker_word = ''Citations''"

definition marker_at :: "string \<Rightarrow> bool" where
  "marker_at s =
     (case s of
        [] \<Rightarrow> False
      | c # r \<Rightarrow>
          c = CHR 0x0A \<and>
          (let r1 = dropWhile isspace r in
           prefix marker_word r1 \<and>
           (case dropWhile isspace (drop (length marker_word) r1) of
              [] \<Rightarrow> False
            | d # r3 \<Rightarrow> d = CHR '':'' \<and> CHR 0x0A \<in> set (takeWhile isspace r3))))"

text \<open>\<open>re.split(pattern, answer, maxsplit=1)[0]\<close>: the text before the leftmost match,
  the whole text when there is none.\<close>

fun before_marker :: "string \<Rightarrow> string" where
  "before_marker [] = []"
| "before_marker (c # cs) = (if marker_at (c # cs) then [] else c # before_marker cs)"

definition remove_existing_citations :: "string \<Rightarrow> string" where
  "remove_existing_citations answer = strip (before_marker answer)"

subsection \<open>The public entry point\<close>

text \<open>What the reasoning loop returns: the final text and, when present, the list of
  (action, observation) pairs (\<open>result["output"]\<close> and
  \<open>result.get("intermediate_steps", [])\<close>). The action is kept as the name of the capability.\<close>

record agent_result =
  final_output :: string
  intermediate_steps :: "(string \<times> string) list option"

text \<open>The calls \<open>ask_agent\<close> makes to its collaborators, in order: the similarity search
  on the style index (which embeds the query) and the reasoning loop.\<close>

datatype call = StyleSearch string nat | AgentInvoke string string

text \<open>The two \<open>for\<close> loops over the steps and over the citations of one observation.\<close>

definition collect_citations :: "(string \<times> string) list \<Rightarrow> string list" where
  "collect_citations steps =
     foldl (\<lambda>citations (action, observation).
              foldl od_set citations (extract_citations observation)) [] steps"

definition citation_block :: "string list \<Rightarrow> string" where
  "citation_block citations =
     (if citations \<noteq> [] then
        [CHR 0x0A, CHR 0x0A] @ ''Citations:'' @ [CHR 0x0A] @
        join [CHR 0x0A] (map (\<lambda>c. ''- '' @ c) citations)
      else [])"

text \<open>\<open>ask_agent\<close>. The registry \<open>vectorstores\<close> is a dictionary from index names to
  indexes; \<open>style_search q k\<close> is the similarity search on the style index and
  \<open>agent_executor q style\<close> the reasoning loop. The result is the answer and the calls
  made.\<close>

definition retrieve_style_examples :: "(string \<Rightarrow> nat \<Rightarrow> string list) \<Rightarrow> string \<Rightarrow> string" where
  "retrieve_style_examples style_search query =
     (let results = style_search query 5 in
      join [CHR 0x0A, CHR 0x0A]
        (map (\<lambda>(i, content). ''Example '' @ str_int (int i + 1) @ '':'' @ [CHR 0x0A] @ content)
             (enumerate 0 results)))"

definition ask_agent ::
  "(string \<times> 'vs) list \<Rightarrow> (string \<Rightarrow> nat \<Rightarrow> string list) \<Rightarrow>
   (string \<Rightarrow> string \<Rightarrow> agent_result) \<Rightarrow> string \<Rightarrow> string \<times> call list" where
  "ask_agent vectorstores style_search agent_executor question =
     (if vectorstores = [] then (''Knowledge base is empty (no Chroma DBs found).'', [])
      else
        (let style_examples = retrieve_style_examples style_search question;
             result = agent_executor question style_examples;
             answer = remove_existing_citations (final_output result);
             citations = collect_citations
                           (case intermediate_steps result of None \<Rightarrow> [] | Some steps \<Rightarrow> steps)
         in (answer @ citation_block citations,
             [StyleSearch question 5, AgentInvoke question style_examples])))"

section \<open>Retrieval (agent\_service.py)\<close>

subsection \<open>Values, scores and documents\<close>

text \<open>The values a metadata dictionary holds. As in Python a \<open>bool\<close> is an \<open>int\<close>:
  \<open>isinstance(True, int)\<close> holds and \<open>True + 1 = 2\<close>.\<close>

datatype pyval = PNone | PBool bool | PInt int | PStr string

fun isinstance_int :: "pyval \<Rightarrow> bool" where
  "isinstance_int (PInt i) = True"
| "isinstance_int (PBool b) = True"
| "isinstance_int v = False"

fun int_of :: "pyval \<Rightarrow> int" where
  "int_of (PInt i) = i"
| "int_of (PBool b) = (if b then 1 else 0)"
| "int_of v = 0"

text \<open>\<open>str(v)\<close>, which is what an f-string prints.\<close>

fun py_str :: "pyval \<Rightarrow> string" where
  "py_str PNone = ''None''"
| "py_str (PBool b) = (if b then ''True'' else ''False'')"
| "py_str (PInt i) = str_int i"
| "py_str (PStr s) = s"

text \<open>A Python \<open>float\<close>: the real number it denotes, an infinity, or NaN; \<open>a < b\<close> on
  floats, which is false as soon as one side is NaN.\<close>

datatype pyfloat = Finite real | PosInf | NegInf | NaN

fun float_lt :: "pyfloat \<Rightarrow> pyfloat \<Rightarrow> bool" where
  "float_lt NaN b = False"
| "float_lt a NaN = False"
| "float_lt (Finite a) (Finite b) = (a < b)"
| "float_lt (Finite a) PosInf = True"
| "float_lt (Finite a) NegInf = False"
| "float_lt PosInf b = False"
| "float_lt NegInf NegInf = False"
| "float_lt NegInf b = True"

text \<open>The literal \<open>0.38\<close>: the double nearest to 38/100, which is
  3422735716801577 / 2^53.\<close>

definition threshold :: pyfloat where
  "threshold = Finite (3422735716801577 / 9007199254740992)"

text \<open>A chunk as the index returns it; \<open>metadata\<close> may be \<open>None\<close>.\<close>

record document =
  page_content :: string
  metadata :: "(string \<rightharpoonup> pyval) option"

text \<open>The index is an external collaborator. For a query it ranks its chunks with their
  distance scores, nearest first; \<open>similarity_search_with_score(query, k)\<close> returns the
  first \<open>k\<close> of them.\<close>

type_synonym vectorstore = "string \<Rightarrow> (document \<times> pyfloat) list"

definition similarity_search_with_score ::
  "vectorstore \<Rightarrow> string \<Rightarrow> nat \<Rightarrow> (document \<times> pyfloat) list" where
  "similarity_search_with_score vs query k = take k (vs query)"

text \<open>The slice \<open>xs[:k]\<close>; a negative \<open>k\<close> counts from the end.\<close>

definition slice_to :: "'a list \<Rightarrow> int \<Rightarrow> 'a list" where
  "slice_to xs k = (if 0 \<le> k then take (nat k) xs else take (nat (int (length xs) + k)) xs)"

text \<open>\<open>d.get(key, default)\<close>\<close>

definition dict_get :: "('k \<rightharpoonup> 'v) \<Rightarrow> 'k \<Rightarrow> 'v \<Rightarrow> 'v" where
  "dict_get d key dflt = (case d key of None \<Rightarrow> dflt | Some v \<Rightarrow> v)"

subsection \<open>\<open>search_pdf_from_db\<close>\<close>

text \<open>\<open>[doc for doc, score in docs_with_scores if score < 0.38][:k]\<close>\<close>

definition kept_docs :: "(document \<times> pyfloat) list \<Rightarrow> int \<Rightarrow> document list" where
  "kept_docs docs_with_scores k =
     slice_to (map fst (filter (\<lambda>(doc, score). float_lt score threshold) docs_with_scores)) k"

text \<open>\<open>meta = doc.metadata or {}\<close> and the three look-ups of the loop body.\<close>

definition doc_meta :: "document \<Rightarrow> (string \<rightharpoonup> pyval)" where
  "doc_meta doc = (case metadata doc of None \<Rightarrow> Map.empty | Some m \<Rightarrow> m)"

definition doc_source :: "document \<Rightarrow> pyval" where
  "doc_source doc = dict_get (doc_meta doc) ''source'' (PStr ''Unknown'')"

definition doc_page :: "document \<Rightarrow> pyval" where
  "doc_page doc = dict_get (doc_meta doc) ''page'' PNone"

definition doc_db_name :: "document \<Rightarrow> pyval" where
  "doc_db_name doc = dict_get (doc_meta doc) ''db_name'' (PStr ''UnknownDB'')"

text \<open>One round of \<open>for doc in docs\<close> on the pair of the citations (the keys of the
  ordered dictionary) and the context blocks. \<open>page\<close> is reassigned to \<open>page + 1\<close> when
  it is an integer, and the block prints the reassigned value.\<close>

definition doc_step :: "string list \<times> string list \<Rightarrow> document \<Rightarrow> string list \<times> string list" where
  "doc_step st doc =
     (let citations = fst st;
          context_blocks = snd st;
          source = doc_source doc;
          page0 = doc_page doc;
          db_name = doc_db_name doc;
          page = (if isinstance_int page0 then PInt (int_of page0 + 1) else page0);
          citations = (if isinstance_int page0
                       then od_set citations (py_str source @ '', Page '' @ py_str page)
                       else citations)
      in (citations,
          context_blocks @
          [''DB: '' @ py_str db_name @ [CHR 0x0A] @
           ''Source: '' @ py_str source @ '', Page: '' @
           (if isinstance_int page then py_str page else ''N/A'') @ [CHR 0x0A] @
           page_content doc]))"

text \<open>What the loop body renders for one chunk: the citation of line 103 (for an integer
  page, already converted to 1-based) and the context block of line 106.\<close>

definition citation_of :: "document \<Rightarrow> string" where
  "citation_of doc = py_str (doc_source doc) @ '', Page '' @ str_int (int_of (doc_page doc) + 1)"

definition context_block :: "document \<Rightarrow> string" where
  "context_block doc = ''DB: '' @ py_str (doc_db_name doc) @ [CHR 0x0A] @
           ''Source: '' @ py_str (doc_source doc) @ '', Page: '' @
           (if isinstance_int (doc_page doc) then str_int (int_of (doc_page doc) + 1) else ''N/A'')
           @ [CHR 0x0A] @ page_content doc"

record retrieval_result =
  res_context :: string
  res_citations :: "string list"

definition search_pdf_from_db :: "vectorstore \<Rightarrow> string \<Rightarrow> int \<Rightarrow> retrieval_result" where
  "search_pdf_from_db vs query k =
     (let docs_with_scores = similarity_search_with_score vs query 12;
          docs = kept_docs docs_with_scores k
      in if docs = [] then \<lparr>res_context = [], res_citations = []\<rparr>
         else
           (let st = foldl doc_step ([], []) docs
            in \<lparr>res_context = join ([CHR 0x0A, CHR 0x0A] @ ''---'' @ [CHR 0x0A, CHR 0x0A]) (snd st),
                res_citations = fst st\<rparr>))"

text \<open>\<open>format_context_with_citations\<close> and the capability built by \<open>make_db_tool\<close>, which
  searches with the default \<open>k = 8\<close>.\<close>

definition format_context_with_citations :: "retrieval_result \<Rightarrow> string" where
  "format_context_with_citations res =
     (let context = strip (res_context res);
          citations = res_citations res
      in if context = [] then [] else context @ citation_block citations)"

definition db_tool :: "vectorstore \<Rightarrow> string \<Rightarrow> string" where
  "db_tool vs query = format_context_with_citations (search_pdf_from_db vs query 8)"

section \<open>Ingestion (chroma1.py)\<close>

subsection \<open>Names and paths\<close>

text \<open>\<open>str.lower\<close> on the code points below 256: the ASCII capitals and the capitals
  of Latin-1 (U+00C0 to U+00DE without the multiplication sign U+00D7) move up by 32.\<close>

definition lower_char :: "char \<Rightarrow> char" where
  "lower_char c =
     (let n = (of_char c :: nat)
      in if (65 \<le> n \<and> n \<le> 90) \<or> (192 \<le> n \<and> n \<le> 222 \<and> n \<noteq> 215)
         then char_of (n + 32) else c)"

definition lower :: "string \<Rightarrow> string" where
  "lower s = map lower_char s"

text \<open>\<open>s.endswith(suffix)\<close>\<close>

definition endswith :: "string \<Rightarrow> string \<Rightarrow> bool" where
  "endswith s sfx = prefix (rev sfx) (rev s)"

text \<open>\<open>s.split(sep)\<close> for a separator of one character.\<close>

fun split_char :: "char \<Rightarrow> string \<Rightarrow> string list" where
  "split_char sep [] = [[]]"
| "split_char sep (c # cs) =
     (if c = sep then [] # split_char sep cs
      else (case split_char sep cs of
              p # ps \<Rightarrow> (c # p) # ps
            | [] \<Rightarrow> [[c]]))"

text \<open>\<open>pathlib\<close> on a POSIX path: the parts are the pieces between slashes without the
  empty ones and the single dots; \<open>name\<close> is the last part, empty when there is none.\<close>

definition path_parts :: "string \<Rightarrow> string list" where
  "path_parts p = filter (\<lambda>x. x \<noteq> [] \<and> x \<noteq> ''.'') (split_char CHR ''/'' p)"

definition path_name :: "string \<Rightarrow> string" where
  "path_name p = (case path_parts p of [] \<Rightarrow> [] | x # xs \<Rightarrow> last (x # xs))"

text \<open>\<open>s.rfind(c)\<close>: the index of the last occurrence, \<open>-1\<close> when there is none.\<close>

definition rfind :: "char \<Rightarrow> string \<Rightarrow> int" where
  "rfind c s =
     (if c \<in> set s then int (length s) - 1 - int (length (takeWhile (\<lambda>x. x \<noteq> c) (rev s)))
      else - 1)"

text \<open>\<open>Path(p).suffix\<close> and \<open>Path(p).stem\<close>: the name is cut at its last dot when that dot
  is neither its first nor its last character.\<close>

definition path_suffix :: "string \<Rightarrow> string" where
  "path_suffix p =
     (let name = path_name p; i = rfind CHR ''.'' name
      in if 0 < i \<and> i < int (length name) - 1 then drop (nat i) name else [])"

definition path_stem :: "string \<Rightarrow> string" where
  "path_stem p =
     (let name = path_name p; i = rfind CHR ''.'' name
      in if 0 < i \<and> i < int (length name) - 1 then take (nat i) name else name)"

text \<open>The character class \<open>[a-zA-Z0-9_-]\<close>.\<close>

definition name_char :: "char \<Rightarrow> bool" where
  "name_char c =
     (let n = (of_char c :: nat)
      in (97 \<le> n \<and> n \<le> 122) \<or> (65 \<le> n \<and> n \<le> 90) \<or> (48 \<le> n \<and> n \<le> 57)
         \<or> c = CHR ''_'' \<or> c = CHR ''-'')"

text \<open>\<open>sanitize_name\<close>: \<open>re.sub(r"[^a-zA-Z0-9_-]", "_", Path(name).stem)\<close> replaces each
  character outside the class by an underscore.\<close>

definition sanitize_name :: "string \<Rightarrow> string" where
  "sanitize_name name = map (\<lambda>c. if name_char c then c else CHR ''_'') (path_stem name)"

text \<open>\<open>db_name = f"chroma_{safe_name}"\<close> of the ingestion loop.\<close>

definition db_name_of :: "string \<Rightarrow> string" where
  "db_name_of filename = ''chroma_'' @ sanitize_name filename"

subsection \<open>Index creation with retry\<close>

text \<open>What a call that may raise does: it returns a value or raises an exception, kept as
  the text \<open>str(e)\<close> of the exception.\<close>

datatype 'a outcome = Returns 'a | Raises string

text \<open>The test of the \<open>except\<close> branch on \<open>msg = str(e).lower()\<close>.\<close>

definition is_overload :: "string \<Rightarrow> bool" where
  "is_overload e =
     (let msg = lower e
      in str_contains ''429'' msg \<or> str_contains ''nocapacity'' msg \<or> str_contains ''rate limit'' msg)"

text \<open>The \<open>while True\<close> loop of \<open>create_chroma_with_retry\<close>. \<open>from_documents n\<close> is the
  outcome of the call of \<open>Chroma.from_documents\<close> made after \<open>n\<close> failed calls; every
  round either leaves the loop or adds one to \<open>attempt\<close>, so the round made with
  \<open>attempt = n\<close> is the one after \<open>n\<close> failures. \<open>slept\<close> records the arguments of
  \<open>time.sleep\<close>. The result is the index, or the exception that leaves the function.\<close>

function retry_loop ::
  "(nat \<Rightarrow> 'a outcome) \<Rightarrow> int \<Rightarrow> nat \<Rightarrow> int list \<Rightarrow> (string + 'a) \<times> int list" where
  "retry_loop from_documents max_retries attempt slept =
     (case from_documents attempt of
        Returns db \<Rightarrow> (Inr db, slept)
      | Raises e \<Rightarrow>
          if is_overload e then
            (if int (attempt + 1) > max_retries then (Inl e, slept)
             else retry_loop from_documents max_retries (attempt + 1)
                    (slept @ [10 * int (attempt + 1)]))
          else (Inl e, slept))"
  by pat_completeness auto
termination
  by (relation "measure (\<lambda>(f, m, a, s). nat (m + 1 - int a))") auto

declare retry_loop.simps [simp del]

definition create_chroma_with_retry ::
  "(nat \<Rightarrow> 'a outcome) \<Rightarrow> int \<Rightarrow> (string + 'a) \<times> int list" where
  "create_chroma_with_retry from_documents max_retries =
     retry_loop from_documents max_retries 0 []"

subsection \<open>Loading a file\<close>

text \<open>The collaborators of the ingestion script: the PDF loader (\<open>PyPDFLoader(path).load()\<close>),
  the file system test \<open>Path.exists\<close>, the converter of \<open>docx2pdf\<close>, the text splitter
  and, for a persistence directory and its chunks, the outcomes of the successive calls of
  \<open>Chroma.from_documents\<close>.\<close>

record env =
  pdf_load :: "string \<Rightarrow> document list outcome"
  path_exists :: "string \<Rightarrow> bool"
  docx_convert :: "string \<Rightarrow> string \<Rightarrow> unit outcome"
  split_documents :: "document list \<Rightarrow> document list"
  from_documents :: "string \<Rightarrow> document list \<Rightarrow> nat \<Rightarrow> unit outcome"

text \<open>\<open>str(Path(p))\<close> and \<open>str(Path(p).with_suffix(sfx))\<close> for a path that has a name.\<close>

definition path_str :: "string \<Rightarrow> string" where
  "path_str p =
     (if prefix ''/'' p then ''/'' else []) @
     (if path_parts p = [] \<and> \<not> prefix ''/'' p then ''.'' else join ''/'' (path_parts p))"

definition with_suffix :: "string \<Rightarrow> string \<Rightarrow> string" where
  "with_suffix p sfx =
     (let parts = path_parts p;
          name = path_name p;
          new_name = take (length name - length (path_suffix p)) name @ sfx
      in (if prefix ''/'' p then ''/'' else []) @ join ''/'' (butlast parts @ [new_name]))"

definition convert_docx_to_pdf :: "env \<Rightarrow> string \<Rightarrow> string outcome" where
  "convert_docx_to_pdf e docx_path =
     (let pdf_path = with_suffix docx_path ''.pdf''
      in if path_exists e pdf_path then Returns pdf_path
         else (case docx_convert e (path_str docx_path) pdf_path of
                 Raises x \<Rightarrow> Raises x
               | Returns u \<Rightarrow> Returns pdf_path))"

definition load_file_with_real_pages :: "env \<Rightarrow> string \<Rightarrow> (document list \<times> pyval) outcome" where
  "load_file_with_real_pages e file_path =
     (let ext = lower (path_suffix file_path)
      in if ext = ''.pdf'' then
           (case pdf_load e file_path of
              Raises x \<Rightarrow> Raises x
            | Returns docs \<Rightarrow> Returns (docs, PStr ''pdf''))
         else if ext = ''.docx'' then
           (case convert_docx_to_pdf e file_path of
              Raises x \<Rightarrow> Raises x
            | Returns pdf_path \<Rightarrow>
                (case pdf_load e pdf_path of
                   Raises x \<Rightarrow> Raises x
                 | Returns docs \<Rightarrow> Returns (docs, PStr ''docx'')))
         else Returns ([], PNone))"

subsection \<open>Chunk metadata\<close>

text \<open>The body of \<open>for i, c in enumerate(chunks)\<close> on the metadata of one chunk:
  \<open>update\<close> sets four keys and keeps every other key; \<open>page\<close> is set only when absent.\<close>

definition chunk_metadata ::
  "string \<Rightarrow> pyval \<Rightarrow> string \<Rightarrow> nat \<Rightarrow> (string \<rightharpoonup> pyval) \<Rightarrow> (string \<rightharpoonup> pyval)" where
  "chunk_metadata filename doc_type db_name i m =
     (let m1 = m(''source'' \<mapsto> PStr filename, ''doc_type'' \<mapsto> doc_type,
                 ''db_name'' \<mapsto> PStr db_name, ''chunk_id'' \<mapsto> PInt (int i))
      in (case m1 ''page'' of
            None \<Rightarrow> m1(''page'' \<mapsto> PStr ''N/A'')
          | Some p \<Rightarrow> m1))"

definition attach_metadata :: "string \<Rightarrow> pyval \<Rightarrow> string \<Rightarrow> document list \<Rightarrow> document list" where
  "attach_metadata filename doc_type db_name chunks =
     map (\<lambda>(i, c). c\<lparr>metadata := Some (chunk_metadata filename doc_type db_name i (doc_meta c))\<rparr>)
         (enumerate 0 chunks)"

subsection \<open>The loop over the files\<close>

text \<open>What the script has done so far: the indexes created, with their chunks; the files
  for which it printed that it skipped them; the waits of the retries.\<close>

record ingest_state =
  created :: "(string \<times> document list) list"
  skipped :: "string list"
  slept :: "int list"

text \<open>One round of \<open>for filename in os.listdir(FILES_FOLDER)\<close>. \<open>os.path.join\<close> puts a
  slash between the folder and the directory entry. Nothing catches an exception of the
  loader, the converter or the index creation: it ends the script.\<close>

definition process_file :: "env \<Rightarrow> ingest_state \<Rightarrow> string \<Rightarrow> ingest_state outcome" where
  "process_file e st filename =
     (if \<not> (endswith (lower filename) ''.pdf'' \<or> endswith (lower filename) ''.docx'')
      then Returns st
      else
        (let file_path = ''./pdfs/'' @ filename;
             db_name = db_name_of filename;
             persist_dir = ''./chroma_dbs/'' @ db_name
         in case load_file_with_real_pages e file_path of
              Raises x \<Rightarrow> Raises x
            | Returns (documents, doc_type) \<Rightarrow>
                if documents = [] then Returns (st\<lparr>skipped := skipped st @ [filename]\<rparr>)
                else
                  (let chunks = attach_metadata filename doc_type db_name
                                  (split_documents e documents)
                   in case create_chroma_with_retry (from_documents e persist_dir chunks) 8 of
                        (Inl x, waits) \<Rightarrow> Raises x
                      | (Inr db, waits) \<Rightarrow>
                          Returns (st\<lparr>created := created st @ [(db_name, chunks)],
                                      slept := slept st @ waits\<rparr>))))"

fun process_files :: "env \<Rightarrow> ingest_state \<Rightarrow> string list \<Rightarrow> ingest_state outcome" where
  "process_files e st [] = Returns st"
| "process_files e st (filename # rest) =
     (case process_file e st filename of
        Raises x \<Rightarrow> Raises x
      | Returns st' \<Rightarrow> process_files e st' rest)"

subsection \<open>Deduplication in the words of the specification\<close>

text \<open>Deduplication by exact string that keeps the order in which the strings are first
  seen: the first element stays, later copies of it are dropped.\<close>

fun first_seen :: "'a list \<Rightarrow> 'a list" where
  "first_seen [] = []"
| "first_seen (x # xs) = x # filter (\<lambda>y. y \<noteq> x) (first_seen xs)"

section \<open>Properties\<close>

subsection \<open>The empty registry\<close>

text \<open>
  Claim C5. For every question, when the registry of indexes is empty, \<open>ask_agent\<close>
  returns the fixed message that the knowledge base is empty and makes no call at all:
  neither the style search (which would embed the question) nor the reasoning loop runs.
\<close>

theorem ask_agent_empty_registry:
  "ask_agent [] style_search agent_executor question
     = (''Knowledge base is empty (no Chroma DBs found).'', [])"
  by (simp add: ask_agent_def)

subsection \<open>First-seen order of an ordered dictionary\<close>

lemma filter_first_seen: "filter P (first_seen xs) = first_seen (filter P xs)"
proof (induction xs)
  case Nil
  then show ?case by simp
next
  case (Cons x xs)
  show ?case
  proof (cases "P x")
    case True
    have "filter P (filter (\<lambda>y. y \<noteq> x) (first_seen xs)) = filter (\<lambda>y. y \<noteq> x) (filter P (first_seen xs))"
      by (simp add: conj_commute)
    with True Cons show ?thesis by simp
  next
    case False
    have "filter P (filter (\<lambda>y. y \<noteq> x) (first_seen xs)) = filter P (first_seen xs)"
      using False by (auto intro: filter_cong)
    with False Cons show ?thesis by simp
  qed
qed

lemma foldl_od_set: "foldl od_set ks xs = ks @ first_seen (filter (\<lambda>x. x \<notin> set ks) xs)"
proof (induction xs arbitrary: ks)
  case Nil
  then show ?case by simp
next
  case (Cons x xs)
  show ?case
  proof (cases "x \<in> set ks")
    case True
    then have "od_set ks x = ks" by (simp add: od_set_def)
    with True show ?thesis by (simp add: Cons)
  next
    case False
    then have step: "od_set ks x = ks @ [x]" by (simp add: od_set_def)
    have "filter (\<lambda>y. y \<notin> set (ks @ [x])) xs = filter (\<lambda>y. y \<noteq> x) (filter (\<lambda>y. y \<notin> set ks) xs)"
      by (auto intro: filter_cong)
    then have "foldl od_set (ks @ [x]) xs = ks @ [x] @ filter (\<lambda>y. y \<noteq> x) (first_seen (filter (\<lambda>y. y \<notin> set ks) xs))"
      by (simp only: Cons filter_first_seen) simp
    with False step show ?thesis by simp
  qed
qed

lemma foldl_steps:
  "foldl (\<lambda>citations (action, observation). foldl od_set citations (extract_citations observation))
         acc steps
   = foldl od_set acc (concat (map (\<lambda>(action, observation). extract_citations observation) steps))"
  by (induction steps arbitrary: acc) (simp_all add: case_prod_beta)

lemma collect_citations_first_seen:
  "collect_citations steps = first_seen (concat (map (\<lambda>(action, observation). extract_citations observation) steps))"
proof -
  have "collect_citations steps =
      foldl od_set [] (concat (map (\<lambda>(action, observation). extract_citations observation) steps))"
    unfolding collect_citations_def by (rule foldl_steps)
  then show ?thesis by (simp add: foldl_od_set)
qed

lemma foldl_extract_line:
  "foldl extract_line acc ls =
     acc @ filter (\<lambda>c. \<not> str_contains ''Page N/A'' c)
             (map (\<lambda>l. strip (drop 1 (strip l))) (filter (\<lambda>l. prefix ''-'' (strip l)) ls))"
  by (induction ls arbitrary: acc) (simp_all add: extract_line_def Let_def)

lemma str_contains_iff: "str_contains sub s \<longleftrightarrow> (\<exists>i \<le> length s. prefix sub (drop i s))"
proof (induction s)
  case Nil
  then show ?case by simp
next
  case (Cons c cs)
  show ?case
  proof
    assume "str_contains sub (c # cs)"
    then consider "prefix sub (c # cs)" | "str_contains sub cs" by auto
    then show "\<exists>i \<le> length (c # cs). prefix sub (drop i (c # cs))"
    proof cases
      case 1
      then have "prefix sub (drop 0 (c # cs))" by simp
      then show ?thesis by blast
    next
      case 2
      with Cons obtain i where "i \<le> length cs" "prefix sub (drop i cs)" by auto
      then have "Suc i \<le> length (c # cs) \<and> prefix sub (drop (Suc i) (c # cs))" by simp
      then show ?thesis by blast
    qed
  next
    assume "\<exists>i \<le> length (c # cs). prefix sub (drop i (c # cs))"
    then obtain i where i: "i \<le> length (c # cs)" "prefix sub (drop i (c # cs))" by auto
    show "str_contains sub (c # cs)"
    proof (cases i)
      case 0
      with i show ?thesis by simp
    next
      case (Suc j)
      with i have "j \<le> length cs \<and> prefix sub (drop j cs)" by simp
      with Cons show ?thesis by auto
    qed
  qed
qed

subsection \<open>The text after the citation marker\<close>

lemma str_contains_prefix: "prefix sub s \<Longrightarrow> str_contains sub s"
  by (cases s) auto

lemma str_contains_drop: "str_contains sub (drop i s) \<Longrightarrow> str_contains sub s"
proof (induction s arbitrary: i)
  case Nil
  then show ?case by simp
next
  case (Cons c cs)
  then show ?case by (cases i) auto
qed

lemma no_straddle:
  assumes "sep \<noteq> []" and "hd sep \<notin> set (tl sep)"
    and "\<not> str_contains sep before" and "before \<noteq> []"
  shows "\<not> prefix sep (before @ sep @ part)"
proof
  assume "prefix sep (before @ sep @ part)"
  then have "prefix sep before \<or> (\<exists>us. sep = before @ us \<and> prefix us (sep @ part))"
    by (simp only: prefix_append)
  then consider "prefix sep before"
    | us where "sep = before @ us" "prefix us (sep @ part)"
    by blast
  then show False
  proof cases
    case 1
    with assms(3) show False by (simp add: str_contains_prefix)
  next
    case 2
    show False
    proof (cases us)
      case Nil
      with 2 have "prefix sep before" by simp
      with assms(3) show False by (simp add: str_contains_prefix)
    next
      case (Cons u us')
      from assms(1) obtain h t where sep: "sep = h # t" by (cases sep) auto
      with 2(2) Cons have u: "u = h" by simp
      from assms(4) obtain b bs where b: "before = b # bs" by (cases before) auto
      with 2(1) Cons sep have "t = bs @ u # us'" by simp
      then have "u \<in> set t" by simp
      with u sep assms(2) show False by simp
    qed
  qed
qed

lemma split_once_leftmost:
  assumes "sep \<noteq> []" and "hd sep \<notin> set (tl sep)"
  shows "\<not> str_contains sep before \<Longrightarrow> split_once sep (before @ sep @ part) = [before, part]"
proof (induction before)
  case Nil
  from assms(1) obtain h t where "sep = h # t" by (cases sep) auto
  then show ?case by simp
next
  case (Cons c cs)
  have np: "\<not> prefix sep (c # cs @ sep @ part)"
    using no_straddle[OF assms Cons.prems, of part] by simp
  from Cons.prems have "\<not> str_contains sep cs" by simp
  then have "split_once sep (cs @ sep @ part) = [cs, part]"
    by (rule Cons.IH)
  with np show ?case by simp
qed

lemma marker_shape: "''Citations:'' \<noteq> [] \<and> hd ''Citations:'' \<notin> set (tl ''Citations:'')"
  by simp

lemma str_contains_mid: "str_contains sub (before @ sub @ part)"
proof -
  have "prefix sub (drop (length before) (before @ sub @ part))" by simp
  then show ?thesis using str_contains_drop str_contains_prefix by blast
qed

lemma extract_citations_after_marker:
  assumes "\<not> str_contains ''Citations:'' before"
  shows "extract_citations (before @ ''Citations:'' @ part) =
     filter (\<lambda>c. \<not> str_contains ''Page N/A'' c)
       (map (\<lambda>l. strip (drop 1 (strip l))) (filter (\<lambda>l. prefix ''-'' (strip l)) (splitlines part)))"
proof -
  have "str_contains ''Citations:'' (before @ ''Citations:'' @ part)" by (rule str_contains_mid)
  moreover have "before @ ''Citations:'' @ part \<noteq> []" by simp
  ultimately have "extract_citations (before @ ''Citations:'' @ part) =
      (case split_once ''Citations:'' (before @ ''Citations:'' @ part) of
              [_, part] \<Rightarrow> foldl extract_line [] (splitlines part)
            | _ \<Rightarrow> [])"
    unfolding extract_citations_def by (simp only: if_False simp_thms)
  then show ?thesis
    by (simp only: split_once_leftmost[OF conjunct1[OF marker_shape] conjunct2[OF marker_shape] assms] foldl_extract_line) simp
qed

lemma extract_citations_no_marker:
  "\<not> str_contains ''Citations:'' text \<Longrightarrow> extract_citations text = []"
  by (simp add: extract_citations_def)

subsection \<open>The marker of a citation block\<close>

lemma dropWhile_append_keep:
  "dropWhile P xs \<noteq> [] \<Longrightarrow> dropWhile P (xs @ ys) = dropWhile P xs @ ys"
  by (induction xs) auto

lemma takeWhile_append_subset: "set (takeWhile P xs) \<subseteq> set (takeWhile P (xs @ ys))"
  by (induction xs) auto

lemma marker_word_facts:
  "marker_word \<noteq> []" "CHR 0x0A \<notin> set marker_word"
  by (simp_all add: marker_word_def)

lemma marker_atE:
  assumes "marker_at s"
  obtains r r3 where "s = CHR 0x0A # r" "prefix marker_word (dropWhile isspace r)"
    "dropWhile isspace (drop (length marker_word) (dropWhile isspace r)) = CHR '':'' # r3"
    "CHR 0x0A \<in> set (takeWhile isspace r3)"
proof (cases s)
  case Nil
  with assms show ?thesis by (simp add: marker_at_def)
next
  case (Cons c r)
  with assms have c: "c = CHR 0x0A" and p: "prefix marker_word (dropWhile isspace r)"
    and rest: "(case dropWhile isspace (drop (length marker_word) (dropWhile isspace r)) of
              [] \<Rightarrow> False
            | d # r3 \<Rightarrow> d = CHR '':'' \<and> CHR 0x0A \<in> set (takeWhile isspace r3))"
    unfolding marker_at_def Let_def by simp_all
  from rest obtain r3 where
    "dropWhile isspace (drop (length marker_word) (dropWhile isspace r)) = CHR '':'' # r3"
    "CHR 0x0A \<in> set (takeWhile isspace r3)"
    by (cases "dropWhile isspace (drop (length marker_word) (dropWhile isspace r))") auto
  with c p Cons that show ?thesis by blast
qed

lemma marker_atI:
  assumes "prefix marker_word (dropWhile isspace r)"
    "dropWhile isspace (drop (length marker_word) (dropWhile isspace r)) = CHR '':'' # r3"
    "CHR 0x0A \<in> set (takeWhile isspace r3)"
  shows "marker_at (CHR 0x0A # r)"
  unfolding marker_at_def Let_def using assms by simp

lemma marker_at_append: 
  assumes "marker_at u" shows "marker_at (u @ t)"
proof -
  from assms obtain r r3 where u: "u = CHR 0x0A # r"
    and p: "prefix marker_word (dropWhile isspace r)"
    and r3: "dropWhile isspace (drop (length marker_word) (dropWhile isspace r)) = CHR '':'' # r3"
    and nl: "CHR 0x0A \<in> set (takeWhile isspace r3)"
    by (rule marker_atE)
  define r1 where "r1 = dropWhile isspace r"
  from p have len: "length marker_word \<le> length r1" unfolding r1_def by (rule prefix_length_le)
  with marker_word_facts(1) have "r1 \<noteq> []" by auto
  then have a: "dropWhile isspace (r @ t) = r1 @ t"
    unfolding r1_def by (rule dropWhile_append_keep)
  from p have b: "prefix marker_word (r1 @ t)" unfolding r1_def by (rule prefix_prefix)
  from len have c: "drop (length marker_word) (r1 @ t) = drop (length marker_word) r1 @ t" by simp
  from r3 have "dropWhile isspace (drop (length marker_word) r1) \<noteq> []" by (simp add: r1_def)
  then have "dropWhile isspace (drop (length marker_word) r1 @ t)
             = dropWhile isspace (drop (length marker_word) r1) @ t"
    by (rule dropWhile_append_keep)
  then have d: "dropWhile isspace (drop (length marker_word) r1 @ t) = CHR '':'' # (r3 @ t)"
    using r3 by (simp add: r1_def)
  from nl have e: "CHR 0x0A \<in> set (takeWhile isspace (r3 @ t))"
    using takeWhile_append_subset[of isspace r3 t] by (rule_tac subsetD)
  have "marker_at (CHR 0x0A # (r @ t))"
    by (rule marker_atI[where ?r3.0 = "r3 @ t"]) (simp_all only: a b c d e)
  then show ?thesis by (simp add: u)
qed

lemma before_marker_prefix: "prefix (before_marker s) s"
  by (induction s) auto

lemma before_marker_take:
  "marker_at rest \<Longrightarrow> \<exists>i \<le> length pre. before_marker (pre @ rest) = take i pre"
proof (induction pre)
  case Nil
  then have "before_marker rest = []" by (cases rest) (simp_all add: marker_at_def)
  then show ?case by simp
next
  case (Cons c cs)
  show ?case
  proof (cases "marker_at (c # cs @ rest)")
    case True
    then have "before_marker ((c # cs) @ rest) = take 0 (c # cs)" by simp
    then show ?thesis by blast
  next
    case False
    from Cons obtain i where "i \<le> length cs" "before_marker (cs @ rest) = take i cs" by auto
    with False have "Suc i \<le> length (c # cs) \<and> before_marker ((c # cs) @ rest) = take (Suc i) (c # cs)"
      by simp
    then show ?thesis by blast
  qed
qed

lemma no_marker_in_before: "\<not> marker_at (drop i (before_marker s))"
proof (induction s arbitrary: i)
  case Nil
  then show ?case by (simp add: marker_at_def)
next
  case (Cons c cs)
  show ?case
  proof (cases "marker_at (c # cs)")
    case True
    then show ?thesis by (simp add: marker_at_def)
  next
    case False
    show ?thesis
    proof (cases i)
      case 0
      obtain t where t: "cs = before_marker cs @ t"
        using before_marker_prefix[of cs] by (auto simp: prefix_def)
      have "\<not> marker_at (c # before_marker cs)"
      proof
        assume "marker_at (c # before_marker cs)"
        then have "marker_at ((c # before_marker cs) @ t)" by (rule marker_at_append)
        with t False show False by simp
      qed
      with False 0 show ?thesis by simp
    next
      case (Suc j)
      with False Cons show ?thesis by simp
    qed
  qed
qed

lemma strip_is_slice: "\<exists>k m. strip x = take m (drop k x)"
proof -
  define y where "y = dropWhile isspace x"
  have y: "y = drop (length (takeWhile isspace x)) x"
    unfolding y_def by (rule dropWhile_eq_drop)
  have "dropWhile isspace (rev y) = drop (length (takeWhile isspace (rev y))) (rev y)"
    by (rule dropWhile_eq_drop)
  then have "strip x = rev (drop (length (takeWhile isspace (rev y))) (rev y))"
    by (simp add: strip_def y_def)
  also have "\<dots> = take (length y - length (takeWhile isspace (rev y))) y"
    by (simp add: rev_drop)
  finally show ?thesis using y by blast
qed

lemma no_marker_in_kept: "\<not> marker_at (drop i (remove_existing_citations answer))"
proof
  assume m: "marker_at (drop i (remove_existing_citations answer))"
  obtain k n where s: "strip (before_marker answer) = take n (drop k (before_marker answer))"
    using strip_is_slice by blast
  have "drop i (take n (drop k (before_marker answer)))
        = take (n - i) (drop (i + k) (before_marker answer))"
    by (simp add: drop_take add.commute)
  with m s have "marker_at (take (n - i) (drop (i + k) (before_marker answer)))"
    by (simp add: remove_existing_citations_def)
  then have "marker_at (take (n - i) (drop (i + k) (before_marker answer))
                        @ drop (n - i) (drop (i + k) (before_marker answer)))"
    by (rule marker_at_append)
  then have "marker_at (drop (i + k) (before_marker answer))" by (simp only: append_take_drop_id)
  with no_marker_in_before show False by blast
qed

lemma strip_append_space:
  assumes "\<forall>c \<in> set w. isspace c" shows "strip (a @ w) = strip a"
proof (cases "dropWhile isspace a = []")
  case True
  then have "\<forall>c \<in> set a. isspace c" by (simp add: dropWhile_eq_Nil_conv)
  with assms have "dropWhile isspace (a @ w) = []" by (auto simp: dropWhile_eq_Nil_conv)
  with True show ?thesis unfolding strip_def by (simp only:)
next
  case False
  then have "dropWhile isspace (a @ w) = dropWhile isspace a @ w" by (rule dropWhile_append_keep)
  moreover have "dropWhile isspace (rev w @ rev (dropWhile isspace a)) = dropWhile isspace (rev (dropWhile isspace a))"
    using assms by (intro dropWhile_append2) simp
  ultimately show ?thesis by (simp add: strip_def)
qed

lemma marker_needs_space:
  assumes m: "marker_at (c # cs @ rest)" and r: "marker_at rest"
    and nc: "\<not> str_contains marker_word cs"
  shows "\<forall>x \<in> set (c # cs). isspace x"
proof -
  from m obtain q where "c # cs @ rest = CHR 0x0A # q" "prefix marker_word (dropWhile isspace q)"
    by (rule marker_atE)
  then have c: "c = CHR 0x0A" and p: "prefix marker_word (dropWhile isspace (cs @ rest))"
    by simp_all
  from r obtain rr where rest: "rest = CHR 0x0A # rr" by (rule marker_atE)
  have "dropWhile isspace cs = []"
  proof (rule ccontr)
    assume ne: "dropWhile isspace cs \<noteq> []"
    define d where "d = dropWhile isspace cs"
    from ne have "dropWhile isspace (cs @ rest) = d @ rest"
      unfolding d_def by (rule dropWhile_append_keep)
    with p have "prefix marker_word (d @ rest)" by simp
    then have "prefix marker_word d \<or> (\<exists>us. marker_word = d @ us \<and> prefix us rest)"
      by (simp only: prefix_append)
    moreover have nd: "\<not> prefix marker_word d"
    proof
      assume "prefix marker_word d"
      then have "str_contains marker_word d" by (rule str_contains_prefix)
      then have "str_contains marker_word (drop (length (takeWhile isspace cs)) cs)"
        by (simp add: d_def dropWhile_eq_drop[symmetric])
      then have "str_contains marker_word cs" by (rule str_contains_drop)
      with nc show False by simp
    qed
    ultimately obtain us where us: "marker_word = d @ us" "prefix us rest" by blast
    show False
    proof (cases us)
      case Nil
      with us nd show False by simp
    next
      case (Cons u us')
      with us(2) rest have "u = CHR 0x0A" by simp
      moreover from us(1) Cons have "set marker_word = set (d @ u # us')" by simp
      then have "u \<in> set marker_word" by simp
      ultimately show False using marker_word_facts(2) by simp
    qed
  qed
  then have "\<forall>x \<in> set cs. isspace x" by (simp add: dropWhile_eq_Nil_conv)
  with c show ?thesis by (simp add: isspace_def)
qed

lemma before_marker_clean:
  "marker_at rest \<Longrightarrow> \<not> str_contains marker_word pre \<Longrightarrow>
   \<exists>i \<le> length pre. before_marker (pre @ rest) = take i pre \<and> (\<forall>x \<in> set (drop i pre). isspace x)"
proof (induction pre)
  case Nil
  then have "before_marker rest = []" by (cases rest) (simp_all add: marker_at_def)
  then show ?case by simp
next
  case (Cons c cs)
  from Cons.prems have nc: "\<not> str_contains marker_word cs" by simp
  show ?case
  proof (cases "marker_at (c # cs @ rest)")
    case True
    then have "\<forall>x \<in> set (c # cs). isspace x"
      using Cons.prems(1) nc by (rule marker_needs_space)
    moreover from True have "before_marker ((c # cs) @ rest) = take 0 (c # cs)" by simp
    ultimately have "0 \<le> length (c # cs) \<and> before_marker ((c # cs) @ rest) = take 0 (c # cs)
        \<and> (\<forall>x \<in> set (drop 0 (c # cs)). isspace x)" by simp
    then show ?thesis by blast
  next
    case False
    from Cons.IH[OF Cons.prems(1) nc] obtain i where
      "i \<le> length cs" "before_marker (cs @ rest) = take i cs" "\<forall>x \<in> set (drop i cs). isspace x"
      by auto
    with False have "Suc i \<le> length (c # cs) \<and> before_marker ((c # cs) @ rest) = take (Suc i) (c # cs)
        \<and> (\<forall>x \<in> set (drop (Suc i) (c # cs)). isspace x)"
      by simp
    then show ?thesis by blast
  qed
qed

lemma remove_existing_citations_clean:
  assumes "marker_at rest" and "\<not> str_contains marker_word pre"
  shows "remove_existing_citations (pre @ rest) = strip pre"
proof -
  from before_marker_clean[OF assms] obtain i where
    i: "before_marker (pre @ rest) = take i pre" "\<forall>x \<in> set (drop i pre). isspace x" by auto
  have "strip (take i pre @ drop i pre) = strip (take i pre)"
    using i(2) by (rule strip_append_space)
  with i(1) show ?thesis by (simp add: remove_existing_citations_def)
qed

subsection \<open>Citations of the final answer\<close>

lemma ask_agent_answer:
  assumes "vectorstores \<noteq> []"
  shows "fst (ask_agent vectorstores style_search agent_executor question) =
     remove_existing_citations
       (final_output (agent_executor question (retrieve_style_examples style_search question)))
     @ citation_block (collect_citations
         (case intermediate_steps (agent_executor question (retrieve_style_examples style_search question))
          of None \<Rightarrow> [] | Some steps \<Rightarrow> steps))"
  using assms by (simp add: ask_agent_def Let_def)

text \<open>
  Claim C1. \<open>ask_agent\<close> builds the citation list of the answer from the observations of the
  reasoning loop alone: in each observation it reads the text after the first
  \<open>Citations:\<close> marker, keeps the lines that start with \<open>-\<close> once stripped, takes the
  stripped rest of each as an entry, and skips the entries that contain \<open>Page N/A\<close>; an
  observation without the marker gives nothing. The entries of all observations, in the
  order the observations occurred, are deduplicated by exact string keeping first-seen
  order. In particular two observations citing \<open>A, Page 3\<close>, \<open>B, Page 1\<close> and
  \<open>B, Page 1\<close>, \<open>C, Page 2\<close> give exactly \<open>A, Page 3\<close>, \<open>B, Page 1\<close>, \<open>C, Page 2\<close>.
\<close>

theorem citations_collected_first_seen:
  "(\<not> str_contains ''Citations:'' before \<longrightarrow>
      extract_citations (before @ ''Citations:'' @ part) =
        filter (\<lambda>c. \<not> str_contains ''Page N/A'' c)
          (map (\<lambda>l. strip (drop 1 (strip l)))
             (filter (\<lambda>l. prefix ''-'' (strip l)) (splitlines part))))
   \<and> (\<not> str_contains ''Citations:'' text \<longrightarrow> extract_citations text = [])
   \<and> collect_citations steps =
       first_seen (concat (map (\<lambda>(action, observation). extract_citations observation) steps))
   \<and> (vectorstores \<noteq> [] \<and>
        intermediate_steps (agent_executor question (retrieve_style_examples style_search question))
          = Some steps \<longrightarrow>
      fst (ask_agent vectorstores style_search agent_executor question) =
        remove_existing_citations
          (final_output (agent_executor question (retrieve_style_examples style_search question)))
        @ citation_block
            (first_seen (concat (map (\<lambda>(action, observation). extract_citations observation) steps))))
   \<and> (extract_citations obs_a = [''A, Page 3'', ''B, Page 1''] \<and>
      extract_citations obs_b = [''B, Page 1'', ''C, Page 2''] \<longrightarrow>
      collect_citations [(act_a, obs_a), (act_b, obs_b)] = [''A, Page 3'', ''B, Page 1'', ''C, Page 2''])"
proof (intro conjI impI)
  assume "\<not> str_contains ''Citations:'' before"
  then show "extract_citations (before @ ''Citations:'' @ part) =
        filter (\<lambda>c. \<not> str_contains ''Page N/A'' c)
          (map (\<lambda>l. strip (drop 1 (strip l)))
             (filter (\<lambda>l. prefix ''-'' (strip l)) (splitlines part)))"
    by (rule extract_citations_after_marker)
next
  assume "\<not> str_contains ''Citations:'' text"
  then show "extract_citations text = []" by (rule extract_citations_no_marker)
next
  show "collect_citations steps =
       first_seen (concat (map (\<lambda>(action, observation). extract_citations observation) steps))"
    by (rule collect_citations_first_seen)
next
  assume a: "vectorstores \<noteq> [] \<and>
        intermediate_steps (agent_executor question (retrieve_style_examples style_search question))
          = Some steps"
  then have "vectorstores \<noteq> []" by simp
  from ask_agent_answer[OF this, of style_search agent_executor question] a
  show "fst (ask_agent vectorstores style_search agent_executor question) =
        remove_existing_citations
          (final_output (agent_executor question (retrieve_style_examples style_search question)))
        @ citation_block
            (first_seen (concat (map (\<lambda>(action, observation). extract_citations observation) steps)))"
    by (simp add: collect_citations_first_seen)
next
  assume "extract_citations obs_a = [''A, Page 3'', ''B, Page 1''] \<and>
      extract_citations obs_b = [''B, Page 1'', ''C, Page 2'']"
  then show "collect_citations [(act_a, obs_a), (act_b, obs_b)] = [''A, Page 3'', ''B, Page 1'', ''C, Page 2'']"
    by (simp add: collect_citations_first_seen)
qed

theorem citations_collected_first_seen_witness:
  "fst (ask_agent [(''chroma_A'', ())] (\<lambda>q k. [])
         (\<lambda>q s. \<lparr>final_output = ''The answer.'',
                  intermediate_steps = Some
                    [(''PDFRetriever_chroma_A'',
                      ''ctx'' @ [CHR 0x0A, CHR 0x0A] @ ''Citations:'' @ [CHR 0x0A] @
                      ''- A, Page 3'' @ [CHR 0x0A] @ ''- B, Page 1''),
                     (''PDFRetriever_ALL'',
                      ''more'' @ [CHR 0x0A, CHR 0x0A] @ ''Citations:'' @ [CHR 0x0A] @
                      ''- B, Page 1'' @ [CHR 0x0A] @ ''- C, Page 2'')]\<rparr>)
         ''question'')
   = ''The answer.'' @ [CHR 0x0A, CHR 0x0A] @ ''Citations:'' @ [CHR 0x0A] @
     ''- A, Page 3'' @ [CHR 0x0A] @ ''- B, Page 1'' @ [CHR 0x0A] @ ''- C, Page 2''"
proof -
  let ?oa = "''ctx'' @ [CHR 0x0A, CHR 0x0A] @ ''Citations:'' @ [CHR 0x0A] @
             ''- A, Page 3'' @ [CHR 0x0A] @ ''- B, Page 1''"
  let ?ob = "''more'' @ [CHR 0x0A, CHR 0x0A] @ ''Citations:'' @ [CHR 0x0A] @
             ''- B, Page 1'' @ [CHR 0x0A] @ ''- C, Page 2''"
  have a: "extract_citations ?oa = [''A, Page 3'', ''B, Page 1'']" by code_simp
  have b: "extract_citations ?ob = [''B, Page 1'', ''C, Page 2'']" by code_simp
  have "collect_citations [(''PDFRetriever_chroma_A'', ?oa), (''PDFRetriever_ALL'', ?ob)]
        = [''A, Page 3'', ''B, Page 1'', ''C, Page 2'']"
    using citations_collected_first_seen
            [where obs_a = ?oa and obs_b = ?ob and act_a = "''PDFRetriever_chroma_A''"
               and act_b = "''PDFRetriever_ALL''"] a b
    by blast
  moreover have "remove_existing_citations ''The answer.'' = ''The answer.''" by code_simp
  ultimately show ?thesis
    by (simp add: ask_agent_def Let_def citation_block_def)
qed

subsection \<open>The citation block of the reasoning loop\<close>

text \<open>
  Where the answer of the reasoning loop has a match of \<open>\n\s*Citations\s*:\s*\n\<close>,
  \<open>ask_agent\<close> cuts it at the first match and strips what is left: whatever the loop
  wrote from the marker on is discarded, the text kept is a stripped prefix of the text
  before the marker (the stripped text itself when that text does not contain the word),
  and no such match is left in it. To the text kept it appends the block of the citations
  collected from the observations, which is empty when no citation was collected and
  otherwise one \<open>Citations:\<close> heading followed by one bulleted line for each citation.
\<close>

theorem loop_citations_discarded:
  "(marker_at rest \<longrightarrow>
      (\<exists>i \<le> length pre. remove_existing_citations (pre @ rest) = strip (take i pre)))
   \<and> (marker_at rest \<and> \<not> str_contains ''Citations'' pre \<longrightarrow>
      remove_existing_citations (pre @ rest) = strip pre)
   \<and> (\<forall>i. \<not> marker_at (drop i (remove_existing_citations answer)))
   \<and> (vectorstores \<noteq> [] \<longrightarrow>
      fst (ask_agent vectorstores style_search agent_executor question) =
        remove_existing_citations
          (final_output (agent_executor question (retrieve_style_examples style_search question)))
        @ citation_block (collect_citations
            (case intermediate_steps
                    (agent_executor question (retrieve_style_examples style_search question))
             of None \<Rightarrow> [] | Some steps \<Rightarrow> steps)))
   \<and> citation_block [] = []
   \<and> citation_block (c # cs) =
       [CHR 0x0A, CHR 0x0A] @ ''Citations:'' @ [CHR 0x0A] @
       join [CHR 0x0A] (map (\<lambda>c. ''- '' @ c) (c # cs))"
proof (intro conjI impI allI)
  assume m: "marker_at rest"
  from before_marker_take[OF m, of pre]
  show "\<exists>i \<le> length pre. remove_existing_citations (pre @ rest) = strip (take i pre)"
    by (auto simp: remove_existing_citations_def)
next
  assume "marker_at rest \<and> \<not> str_contains ''Citations'' pre"
  then show "remove_existing_citations (pre @ rest) = strip pre"
    using remove_existing_citations_clean[of rest pre] by (simp add: marker_word_def)
next
  fix i show "\<not> marker_at (drop i (remove_existing_citations answer))"
    by (rule no_marker_in_kept)
next
  assume "vectorstores \<noteq> []"
  then show "fst (ask_agent vectorstores style_search agent_executor question) =
        remove_existing_citations
          (final_output (agent_executor question (retrieve_style_examples style_search question)))
        @ citation_block (collect_citations
            (case intermediate_steps
                    (agent_executor question (retrieve_style_examples style_search question))
             of None \<Rightarrow> [] | Some steps \<Rightarrow> steps))"
    by (rule ask_agent_answer)
next
  show "citation_block [] = []" by (simp add: citation_block_def)
next
  show "citation_block (c # cs) =
       [CHR 0x0A, CHR 0x0A] @ ''Citations:'' @ [CHR 0x0A] @
       join [CHR 0x0A] (map (\<lambda>c. ''- '' @ c) (c # cs))"
    unfolding citation_block_def by (simp only: list.distinct not_False_eq_True if_True)
qed

theorem loop_citations_discarded_witness:
  "marker_at ([CHR 0x0A, CHR 0x0A] @ ''Citations:'' @ [CHR 0x0A] @ ''- Bogus, Page 9'')
   \<and> \<not> str_contains ''Citations'' ''The answer.''
   \<and> remove_existing_citations
        (''The answer.'' @ [CHR 0x0A, CHR 0x0A] @ ''Citations:'' @ [CHR 0x0A] @ ''- Bogus, Page 9'')
      = ''The answer.''
   \<and> fst (ask_agent [(''chroma_A'', ())] (\<lambda>q k. [])
           (\<lambda>q s. \<lparr>final_output =
                      ''The answer.'' @ [CHR 0x0A, CHR 0x0A] @ ''Citations:'' @ [CHR 0x0A] @
                      ''- Bogus, Page 9'',
                    intermediate_steps = Some
                      [(''PDFRetriever_chroma_A'',
                        ''ctx'' @ [CHR 0x0A, CHR 0x0A] @ ''Citations:'' @ [CHR 0x0A] @
                        ''- A, Page 3'')]\<rparr>)
           ''question'')
      = ''The answer.'' @ [CHR 0x0A, CHR 0x0A] @ ''Citations:'' @ [CHR 0x0A] @ ''- A, Page 3''"
proof -
  let ?rest = "[CHR 0x0A, CHR 0x0A] @ ''Citations:'' @ [CHR 0x0A] @ ''- Bogus, Page 9''"
  let ?obs = "''ctx'' @ [CHR 0x0A, CHR 0x0A] @ ''Citations:'' @ [CHR 0x0A] @ ''- A, Page 3''"
  have m: "marker_at ?rest" by code_simp
  have n: "\<not> str_contains ''Citations'' ''The answer.''" by code_simp
  have s: "strip ''The answer.'' = ''The answer.''" by code_simp
  have "marker_at ?rest \<and> \<not> str_contains ''Citations'' ''The answer.'' \<longrightarrow>
          remove_existing_citations (''The answer.'' @ ?rest) = strip ''The answer.''"
    by (rule loop_citations_discarded[THEN conjunct2, THEN conjunct1])
  with m n have "remove_existing_citations (''The answer.'' @ ?rest) = strip ''The answer.''"
    by blast
  with s have r: "remove_existing_citations (''The answer.'' @ ?rest) = ''The answer.''"
    by (simp only:)
  have c: "collect_citations [(''PDFRetriever_chroma_A'', ?obs)] = [''A, Page 3'']" by code_simp
  from r c m n show ?thesis
    by (simp add: ask_agent_def Let_def citation_block_def)
qed

text \<open>
  Claim C6. \<open>ask_agent\<close> is to strip any \<open>Citations:\<close> block that the reasoning loop
  appended on its own, the marker standing on a line of its own, and to append at most
  one block, derived from the observations alone. The code finds the marker only with a
  line feed before its line and a line feed after its colon. It misses the marker on the
  first line of the answer and the marker that ends the answer: there
  \<open>remove_existing_citations\<close> returns the answer unchanged, and for the answer
  \<open>Citations:\<close>, \<open>- Bogus, Page 9\<close> with one observation citing \<open>A, Page 3\<close> the final
  answer keeps the citation of the loop and carries a second block after it.
\<close>

theorem loop_block_kept_without_line_feed:
  "remove_existing_citations (''Citations:'' @ [CHR 0x0A] @ ''- Bogus, Page 9'')
     = ''Citations:'' @ [CHR 0x0A] @ ''- Bogus, Page 9''
   \<and> remove_existing_citations (''Answer'' @ [CHR 0x0A] @ ''Citations:'')
     = ''Answer'' @ [CHR 0x0A] @ ''Citations:''
   \<and> fst (ask_agent [(''chroma_A'', ())] (\<lambda>q k. [])
           (\<lambda>q s. \<lparr>final_output = ''Citations:'' @ [CHR 0x0A] @ ''- Bogus, Page 9'',
                    intermediate_steps = Some
                      [(''PDFRetriever_chroma_A'',
                        ''ctx'' @ [CHR 0x0A, CHR 0x0A] @ ''Citations:'' @ [CHR 0x0A] @
                        ''- A, Page 3'')]\<rparr>)
           ''question'')
     = ''Citations:'' @ [CHR 0x0A] @ ''- Bogus, Page 9'' @ [CHR 0x0A, CHR 0x0A] @
       ''Citations:'' @ [CHR 0x0A] @ ''- A, Page 3''"
proof -
  have a: "remove_existing_citations (''Citations:'' @ [CHR 0x0A] @ ''- Bogus, Page 9'')
     = ''Citations:'' @ [CHR 0x0A] @ ''- Bogus, Page 9''" by code_simp
  have b: "remove_existing_citations (''Answer'' @ [CHR 0x0A] @ ''Citations:'')
     = ''Answer'' @ [CHR 0x0A] @ ''Citations:''" by code_simp
  have c: "collect_citations [(''PDFRetriever_chroma_A'',
              ''ctx'' @ [CHR 0x0A, CHR 0x0A] @ ''Citations:'' @ [CHR 0x0A] @ ''- A, Page 3'')]
           = [''A, Page 3'']" by code_simp
  from a b c show ?thesis
    by (simp add: ask_agent_def Let_def citation_block_def)
qed

section \<open>Properties of retrieval\<close>

subsection \<open>Decimal rendering\<close>

lemma digit_char_in: "d < 10 \<Longrightarrow> digit_char d \<in> set ''0123456789''"
proof -
  assume "d < 10"
  then have "d < length ''0123456789''" by simp
  then show ?thesis unfolding digit_char_def by (rule nth_mem)
qed

lemma digits_chars: "set (digits n) \<subseteq> set ''0123456789''"
proof (induction n rule: digits.induct)
  case (1 n)
  define D where "D = set ''0123456789''"
  show ?case
  proof (cases "n < 10")
    case True
    then have "digits n = [digit_char n]" by (simp add: digits.simps)
    moreover from True have "digit_char n \<in> D" unfolding D_def by (rule digit_char_in)
    ultimately have "set (digits n) \<subseteq> D" by simp
    then show ?thesis by (simp only: D_def)
  next
    case False
    then have d: "digits n = digits (n div 10) @ [digit_char (n mod 10)]"
      by (subst digits.simps) simp
    have "digit_char (n mod 10) \<in> D" unfolding D_def by (rule digit_char_in) simp
    moreover from 1[OF False] have "set (digits (n div 10)) \<subseteq> D" by (simp only: D_def)
    ultimately have "set (digits n) \<subseteq> D" by (simp add: d)
    then show ?thesis by (simp only: D_def)
  qed
qed

lemma str_int_chars: "set (str_int i) \<subseteq> insert CHR ''-'' (set ''0123456789'')"
proof -
  define D where "D = set ''0123456789''"
  have "set (digits (nat i)) \<subseteq> D" "set (digits (nat (- i))) \<subseteq> D"
    unfolding D_def by (rule digits_chars)+
  then have "set (str_int i) \<subseteq> insert CHR ''-'' D"
    by (auto simp: str_int_def)
  then show ?thesis by (simp only: D_def)
qed

lemma str_int_not_NA: "str_int i \<noteq> ''N/A''"
proof
  assume "str_int i = ''N/A''"
  then have "CHR ''N'' \<in> set (str_int i)" by simp
  with str_int_chars[of i] have "CHR ''N'' \<in> insert CHR ''-'' (set ''0123456789'')" by (rule_tac subsetD)
  then show False by simp
qed

subsection \<open>The loop over the kept chunks\<close>

lemma doc_step_eq:
  "doc_step (cs, bs) doc =
     (if isinstance_int (doc_page doc) then od_set cs (citation_of doc) else cs, bs @ [context_block doc])"
  by (simp add: doc_step_def Let_def citation_of_def context_block_def)

lemma foldl_doc_step:
  "foldl doc_step (cs, bs) docs =
     (foldl od_set cs (map citation_of (filter (\<lambda>d. isinstance_int (doc_page d)) docs)),
      bs @ map context_block docs)"
  by (induction docs arbitrary: cs bs) (simp_all add: doc_step_eq)

lemma search_citations:
  "res_citations (search_pdf_from_db vs query k) =
     first_seen (map citation_of (filter (\<lambda>d. isinstance_int (doc_page d))
        (kept_docs (similarity_search_with_score vs query 12) k)))"
  by (simp add: search_pdf_from_db_def Let_def foldl_doc_step foldl_od_set)

lemma search_context:
  "res_context (search_pdf_from_db vs query k) =
     join ([CHR 0x0A, CHR 0x0A] @ ''---'' @ [CHR 0x0A, CHR 0x0A])
       (map context_block (kept_docs (similarity_search_with_score vs query 12) k))"
  by (simp add: search_pdf_from_db_def Let_def foldl_doc_step)

lemma set_first_seen: "set (first_seen xs) = set xs"
  by (induction xs) auto

lemma distinct_first_seen: "distinct (first_seen xs)"
  by (induction xs) (auto simp: set_first_seen)

lemma slice_to_length: "length (slice_to xs k) \<le> length xs"
  by (simp add: slice_to_def nat_le_iff)

lemma kept_docs_le: "length (kept_docs cands k) \<le> length cands"
proof -
  have "length (kept_docs cands k) \<le> length (map fst (filter (\<lambda>(doc, score). float_lt score threshold) cands))"
    unfolding kept_docs_def by (rule slice_to_length)
  also have "\<dots> \<le> length cands" by simp
  finally show ?thesis .
qed

lemma length_first_seen: "length (first_seen xs) \<le> length xs"
proof (induction xs)
  case Nil
  then show ?case by simp
next
  case (Cons x xs)
  have "length (filter (\<lambda>y. y \<noteq> x) (first_seen xs)) \<le> length (first_seen xs)" by simp
  with Cons have "length (filter (\<lambda>y. y \<noteq> x) (first_seen xs)) \<le> length xs" by linarith
  then show ?case by simp
qed

lemma float_lt_threshold:
  "float_lt (Finite x) threshold \<longleftrightarrow> x < 3422735716801577 / 9007199254740992"
  by (simp add: threshold_def)

lemma threshold_near:
  "(38 / 100 :: real) < 3422735716801577 / 9007199254740992
   \<and> (3422735716801577 / 9007199254740992 :: real) < 38 / 100 + 1 / 10 ^ 17"
  by simp

subsection \<open>Filtering, truncation and the fetch of twelve\<close>

lemma kept_docs_take:
  "0 \<le> k \<Longrightarrow> kept_docs cands k =
     take (nat k) (map fst (filter (\<lambda>(doc, score). float_lt score threshold) cands))"
  by (simp add: kept_docs_def slice_to_def)

lemma passing_iff:
  "d \<in> set (map fst (filter (\<lambda>(doc, score). float_lt score threshold) cands))
   \<longleftrightarrow> (\<exists>s. (d, s) \<in> set cands \<and> float_lt s threshold)"
  by (induction cands) auto

lemma slice_to_subset: "set (slice_to xs k) \<subseteq> set xs"
  unfolding slice_to_def by (auto dest: in_set_takeD)

lemma kept_docs_passing:
  assumes "d \<in> set (kept_docs cands k)"
  shows "\<exists>s. (d, s) \<in> set cands \<and> float_lt s threshold"
proof -
  have "set (kept_docs cands k)
        \<subseteq> set (map fst (filter (\<lambda>(doc, score). float_lt score threshold) cands))"
    unfolding kept_docs_def by (rule slice_to_subset)
  with assms have "d \<in> set (map fst (filter (\<lambda>(doc, score). float_lt score threshold) cands))"
    by (rule_tac subsetD)
  then show ?thesis by (simp only: passing_iff)
qed

lemma kept_docs_length_k: "0 \<le> k \<Longrightarrow> length (kept_docs cands k) \<le> nat k"
  by (simp add: kept_docs_take)

lemma fetched_le: "length (similarity_search_with_score vs query 12) \<le> 12"
  by (simp add: similarity_search_with_score_def)

lemma kept_docs_fetch_bound: "length (kept_docs (similarity_search_with_score vs query 12) k) \<le> 12"
  using kept_docs_le[of "similarity_search_with_score vs query 12" k] fetched_le[of vs query]
  by linarith

lemma kept_docs_large_k:
  assumes "12 \<le> k"
  shows "kept_docs (similarity_search_with_score vs query 12) k =
     map fst (filter (\<lambda>(doc, score). float_lt score threshold) (take 12 (vs query)))"
proof -
  let ?p = "map fst (filter (\<lambda>(doc, score). float_lt score threshold) (take 12 (vs query)))"
  have "length ?p \<le> length (take 12 (vs query))" by (simp only: length_map length_filter_le)
  also have "\<dots> \<le> 12" by (simp only: length_take min.cobounded2)
  finally have "length ?p \<le> nat k" using assms by linarith
  moreover from assms have "0 \<le> k" by simp
  ultimately show ?thesis
    by (simp add: kept_docs_take similarity_search_with_score_def)
qed

lemma citations_fetch_bound:
  "length (res_citations (search_pdf_from_db vs query k)) \<le> 12"
proof -
  let ?docs = "kept_docs (similarity_search_with_score vs query 12) k"
  have "length (res_citations (search_pdf_from_db vs query k))
        \<le> length (map citation_of (filter (\<lambda>d. isinstance_int (doc_page d)) ?docs))"
    unfolding search_citations by (rule length_first_seen)
  also have "\<dots> \<le> length ?docs" by simp
  also have "\<dots> \<le> 12" by (rule kept_docs_fetch_bound)
  finally show ?thesis .
qed

lemma search_depends_on_first_12:
  "take 12 (vs query) = take 12 (vs' query) \<Longrightarrow>
   search_pdf_from_db vs query k = search_pdf_from_db vs' query k"
  by (simp add: search_pdf_from_db_def similarity_search_with_score_def)

text \<open>
  Claim C2. \<open>search_pdf_from_db\<close> keeps, of the scored candidates the index returned, the
  chunks whose distance score is strictly less than the threshold \<open>0.38\<close> (the double that
  this literal denotes, which lies within \<open>10^-17\<close> above 38/100): a chunk is among the
  survivors if and only if it came with such a score, a score equal to the threshold or a
  NaN does not pass, and no chunk of the result came without a passing score. For a count
  \<open>k\<close> that is not negative the result is the first \<open>k\<close> survivors in their original
  order, so at most \<open>k\<close> chunks, and the context has one block for each of them.
\<close>

theorem threshold_then_truncate:
  "(0 \<le> k \<longrightarrow> kept_docs cands k =
       take (nat k) (map fst (filter (\<lambda>(doc, score). float_lt score threshold) cands)))
   \<and> (d \<in> set (map fst (filter (\<lambda>(doc, score). float_lt score threshold) cands))
        \<longleftrightarrow> (\<exists>s. (d, s) \<in> set cands \<and> float_lt s threshold))
   \<and> (d \<in> set (kept_docs cands k) \<longrightarrow> (\<exists>s. (d, s) \<in> set cands \<and> float_lt s threshold))
   \<and> (0 \<le> k \<longrightarrow> length (kept_docs cands k) \<le> nat k)
   \<and> (float_lt (Finite x) threshold \<longleftrightarrow> x < 3422735716801577 / 9007199254740992)
   \<and> \<not> float_lt threshold threshold
   \<and> \<not> float_lt NaN threshold
   \<and> (38 / 100 :: real) < 3422735716801577 / 9007199254740992
   \<and> (3422735716801577 / 9007199254740992 :: real) < 38 / 100 + 1 / 10 ^ 17
   \<and> res_context (search_pdf_from_db vs query k) =
       join ([CHR 0x0A, CHR 0x0A] @ ''---'' @ [CHR 0x0A, CHR 0x0A])
         (map context_block (kept_docs (similarity_search_with_score vs query 12) k))"
proof (intro conjI impI)
  assume "0 \<le> k"
  then show "kept_docs cands k =
       take (nat k) (map fst (filter (\<lambda>(doc, score). float_lt score threshold) cands))"
    by (rule kept_docs_take)
next
  show "d \<in> set (map fst (filter (\<lambda>(doc, score). float_lt score threshold) cands))
        \<longleftrightarrow> (\<exists>s. (d, s) \<in> set cands \<and> float_lt s threshold)"
    by (rule passing_iff)
next
  assume "d \<in> set (kept_docs cands k)"
  then show "\<exists>s. (d, s) \<in> set cands \<and> float_lt s threshold" by (rule kept_docs_passing)
next
  assume "0 \<le> k"
  then show "length (kept_docs cands k) \<le> nat k" by (rule kept_docs_length_k)
next
  show "float_lt (Finite x) threshold \<longleftrightarrow> x < 3422735716801577 / 9007199254740992"
    by (rule float_lt_threshold)
next
  show "\<not> float_lt threshold threshold" by (simp add: threshold_def)
next
  show "\<not> float_lt NaN threshold" by simp
next
  show "(38 / 100 :: real) < 3422735716801577 / 9007199254740992" by simp
next
  show "(3422735716801577 / 9007199254740992 :: real) < 38 / 100 + 1 / 10 ^ 17" by simp
next
  show "res_context (search_pdf_from_db vs query k) =
       join ([CHR 0x0A, CHR 0x0A] @ ''---'' @ [CHR 0x0A, CHR 0x0A])
         (map context_block (kept_docs (similarity_search_with_score vs query 12) k))"
    by (rule search_context)
qed

theorem threshold_then_truncate_witness:
  "kept_docs
      [(\<lparr>page_content = ''a'', metadata = None\<rparr>, Finite (1/4)),
       (\<lparr>page_content = ''b'', metadata = None\<rparr>, Finite (1/2)),
       (\<lparr>page_content = ''c'', metadata = None\<rparr>, threshold),
       (\<lparr>page_content = ''d'', metadata = None\<rparr>, Finite (1/10)),
       (\<lparr>page_content = ''e'', metadata = None\<rparr>, NaN)] 1
   = [\<lparr>page_content = ''a'', metadata = None\<rparr>]
   \<and> kept_docs
      [(\<lparr>page_content = ''a'', metadata = None\<rparr>, Finite (1/4)),
       (\<lparr>page_content = ''b'', metadata = None\<rparr>, Finite (1/2)),
       (\<lparr>page_content = ''c'', metadata = None\<rparr>, threshold),
       (\<lparr>page_content = ''d'', metadata = None\<rparr>, Finite (1/10)),
       (\<lparr>page_content = ''e'', metadata = None\<rparr>, NaN)] 8
   = [\<lparr>page_content = ''a'', metadata = None\<rparr>, \<lparr>page_content = ''d'', metadata = None\<rparr>]"
proof -
  let ?cands = "[(\<lparr>page_content = ''a'', metadata = None\<rparr>, Finite (1/4)),
       (\<lparr>page_content = ''b'', metadata = None\<rparr>, Finite (1/2)),
       (\<lparr>page_content = ''c'', metadata = None\<rparr>, threshold),
       (\<lparr>page_content = ''d'', metadata = None\<rparr>, Finite (1/10)),
       (\<lparr>page_content = ''e'', metadata = None\<rparr>, NaN)]"
  have p: "map fst (filter (\<lambda>(doc, score). float_lt score threshold) ?cands)
           = [\<lparr>page_content = ''a'', metadata = None\<rparr>, \<lparr>page_content = ''d'', metadata = None\<rparr>]"
    by (simp add: threshold_def)
  have "(0::int) \<le> 1" "(0::int) \<le> 8" by simp_all
  then have "kept_docs ?cands 1 = take (nat 1) (map fst (filter (\<lambda>(doc, score). float_lt score threshold) ?cands))"
       "kept_docs ?cands 8 = take (nat 8) (map fst (filter (\<lambda>(doc, score). float_lt score threshold) ?cands))"
    using threshold_then_truncate[where cands = ?cands and k = 1]
          threshold_then_truncate[where cands = ?cands and k = 8] by blast+
  then have "kept_docs ?cands 1 = take (nat 1)
               [\<lparr>page_content = ''a'', metadata = None\<rparr>, \<lparr>page_content = ''d'', metadata = None\<rparr>]"
       "kept_docs ?cands 8 = take (nat 8)
               [\<lparr>page_content = ''a'', metadata = None\<rparr>, \<lparr>page_content = ''d'', metadata = None\<rparr>]"
    by (simp_all only: p)
  then show ?thesis by simp
qed

text \<open>
  Claim C3. In the result of \<open>search_pdf_from_db\<close> the citations are exactly the renderings
  \<open>{source}, Page {page + 1}\<close> of the kept chunks whose page metadata is an integer, in
  first-seen order without repetition; every kept chunk, with or without such a page,
  contributes its block to the context, and the block of a chunk whose page is not an
  integer shows \<open>N/A\<close> as its page. The page of a citation is a decimal number, never the
  text \<open>N/A\<close>.
\<close>

theorem citation_only_for_integer_page:
  assumes "docs = kept_docs (similarity_search_with_score vs query 12) k"
  shows "res_citations (search_pdf_from_db vs query k) =
       first_seen (map citation_of (filter (\<lambda>d. isinstance_int (doc_page d)) docs))
   \<and> (c \<in> set (res_citations (search_pdf_from_db vs query k))
        \<longleftrightarrow> (\<exists>d \<in> set docs. isinstance_int (doc_page d) \<and> c = citation_of d))
   \<and> res_context (search_pdf_from_db vs query k) =
       join ([CHR 0x0A, CHR 0x0A] @ ''---'' @ [CHR 0x0A, CHR 0x0A]) (map context_block docs)
   \<and> citation_of d = py_str (doc_source d) @ '', Page '' @ str_int (int_of (doc_page d) + 1)
   \<and> (doc_page d = PInt p \<longrightarrow>
        citation_of d = py_str (doc_source d) @ '', Page '' @ str_int (p + 1))
   \<and> (\<not> isinstance_int (doc_page d) \<longrightarrow>
        context_block d = ''DB: '' @ py_str (doc_db_name d) @ [CHR 0x0A] @
          ''Source: '' @ py_str (doc_source d) @ '', Page: N/A'' @ [CHR 0x0A] @ page_content d)
   \<and> str_int n \<noteq> ''N/A''"
proof (intro conjI impI)
  show a: "res_citations (search_pdf_from_db vs query k) =
       first_seen (map citation_of (filter (\<lambda>d. isinstance_int (doc_page d)) docs))"
    unfolding assms by (rule search_citations)
  show "c \<in> set (res_citations (search_pdf_from_db vs query k))
        \<longleftrightarrow> (\<exists>d \<in> set docs. isinstance_int (doc_page d) \<and> c = citation_of d)"
    unfolding a set_first_seen by auto
  show "res_context (search_pdf_from_db vs query k) =
       join ([CHR 0x0A, CHR 0x0A] @ ''---'' @ [CHR 0x0A, CHR 0x0A]) (map context_block docs)"
    unfolding assms by (rule search_context)
  show "citation_of d = py_str (doc_source d) @ '', Page '' @ str_int (int_of (doc_page d) + 1)"
    by (rule citation_of_def)
  show "str_int n \<noteq> ''N/A''" by (rule str_int_not_NA)
next
  assume "doc_page d = PInt p"
  then show "citation_of d = py_str (doc_source d) @ '', Page '' @ str_int (p + 1)"
    by (simp add: citation_of_def)
next
  assume "\<not> isinstance_int (doc_page d)"
  then show "context_block d = ''DB: '' @ py_str (doc_db_name d) @ [CHR 0x0A] @
          ''Source: '' @ py_str (doc_source d) @ '', Page: N/A'' @ [CHR 0x0A] @ page_content d"
    by (simp add: context_block_def)
qed

theorem citation_only_for_integer_page_witness:
  "res_citations (search_pdf_from_db
     (\<lambda>q. [(\<lparr>page_content = ''alpha'',
              metadata = Some (map_of [(''source'', PStr ''A''), (''page'', PInt 2),
                                       (''db_name'', PStr ''chroma_A'')])\<rparr>, Finite (1/10)),
            (\<lparr>page_content = ''beta'',
              metadata = Some (map_of [(''source'', PStr ''B''), (''page'', PStr ''N/A'')])\<rparr>,
             Finite (1/5))]) ''q'' 8)
   = [''A, Page 3'']
   \<and> res_context (search_pdf_from_db
     (\<lambda>q. [(\<lparr>page_content = ''alpha'',
              metadata = Some (map_of [(''source'', PStr ''A''), (''page'', PInt 2),
                                       (''db_name'', PStr ''chroma_A'')])\<rparr>, Finite (1/10)),
            (\<lparr>page_content = ''beta'',
              metadata = Some (map_of [(''source'', PStr ''B''), (''page'', PStr ''N/A'')])\<rparr>,
             Finite (1/5))]) ''q'' 8)
   = ''DB: chroma_A'' @ [CHR 0x0A] @ ''Source: A, Page: 3'' @ [CHR 0x0A] @ ''alpha'' @
     [CHR 0x0A, CHR 0x0A] @ ''---'' @ [CHR 0x0A, CHR 0x0A] @
     ''DB: UnknownDB'' @ [CHR 0x0A] @ ''Source: B, Page: N/A'' @ [CHR 0x0A] @ ''beta''"
proof -
  let ?vs = "\<lambda>q::string. [(\<lparr>page_content = ''alpha'',
              metadata = Some (map_of [(''source'', PStr ''A''), (''page'', PInt 2),
                                       (''db_name'', PStr ''chroma_A'')])\<rparr>, Finite (1/10)),
            (\<lparr>page_content = ''beta'',
              metadata = Some (map_of [(''source'', PStr ''B''), (''page'', PStr ''N/A'')])\<rparr>,
             Finite (1/5))]"
  let ?docs = "kept_docs (similarity_search_with_score ?vs ''q'' 12) 8"
  have a: "res_citations (search_pdf_from_db ?vs ''q'' 8) =
       first_seen (map citation_of (filter (\<lambda>d. isinstance_int (doc_page d)) ?docs))"
    by (rule citation_only_for_integer_page[OF refl, THEN conjunct1])
  have b: "first_seen (map citation_of (filter (\<lambda>d. isinstance_int (doc_page d)) ?docs))
           = [''A, Page 3'']"
    by code_simp
  have c: "res_context (search_pdf_from_db ?vs ''q'' 8)
   = ''DB: chroma_A'' @ [CHR 0x0A] @ ''Source: A, Page: 3'' @ [CHR 0x0A] @ ''alpha'' @
     [CHR 0x0A, CHR 0x0A] @ ''---'' @ [CHR 0x0A, CHR 0x0A] @
     ''DB: UnknownDB'' @ [CHR 0x0A] @ ''Source: B, Page: N/A'' @ [CHR 0x0A] @ ''beta''"
    by code_simp
  from a b have d: "res_citations (search_pdf_from_db ?vs ''q'' 8) = [''A, Page 3'']" by (rule trans)
  from d c show ?thesis by (rule conjI)
qed

lemma search_exact:
  "search_pdf_from_db vs query k =
     \<lparr>res_context = join ([CHR 0x0A, CHR 0x0A] @ ''---'' @ [CHR 0x0A, CHR 0x0A])
        (map context_block
          (slice_to (map fst (filter (\<lambda>(doc, score). float_lt score threshold)
                                (take 12 (vs query)))) k)),
      res_citations = first_seen (map citation_of (filter (\<lambda>d. isinstance_int (doc_page d))
          (slice_to (map fst (filter (\<lambda>(doc, score). float_lt score threshold)
                                (take 12 (vs query)))) k)))\<rparr>"
  by (simp add: search_pdf_from_db_def Let_def foldl_doc_step foldl_od_set kept_docs_def
        similarity_search_with_score_def)

lemma slice_first_12_le:
  "length (slice_to (map fst (filter (\<lambda>(doc, score). float_lt score threshold)
                                (take 12 ((vs :: vectorstore) query)))) k) \<le> 12"
  using kept_docs_fetch_bound[of vs query k]
  by (simp only: kept_docs_def similarity_search_with_score_def)

lemma slice_large_k:
  assumes "12 \<le> k"
  shows "slice_to (map fst (filter (\<lambda>(doc, score). float_lt score threshold)
                                (take 12 ((vs :: vectorstore) query)))) k
         = map fst (filter (\<lambda>(doc, score). float_lt score threshold) (take 12 ((vs :: vectorstore) query)))"
  using kept_docs_large_k[OF assms, of vs query]
  by (simp only: kept_docs_def similarity_search_with_score_def)

text \<open>
  Claim C10. \<open>search_pdf_from_db\<close> fetches 12 candidates from the index whatever the count
  \<open>k\<close> of its caller is: its result is exactly the rendering (context blocks and
  citations) of the chunks kept from the first 12 of the ranking, never of a thirteenth,
  so the result holds at most 12 chunks and at most 12 citations. For every \<open>k\<close> of 12
  or more the result is the rendering of all the candidates among these first 12 that
  pass the threshold, the same as for \<open>k = 12\<close>: the fetch does not grow with \<open>k\<close>, and
  the result depends on the index through its first 12 candidates only.
\<close>

theorem fetch_is_fixed_at_12:
  "(let docs = slice_to (map fst (filter (\<lambda>(doc, score). float_lt score threshold)
                                    (take 12 (vs query)))) k
    in search_pdf_from_db vs query k =
         \<lparr>res_context = join ([CHR 0x0A, CHR 0x0A] @ ''---'' @ [CHR 0x0A, CHR 0x0A])
                          (map context_block docs),
          res_citations = first_seen (map citation_of
                            (filter (\<lambda>d. isinstance_int (doc_page d)) docs))\<rparr>
       \<and> length docs \<le> 12)
   \<and> (12 \<le> k \<longrightarrow>
        (let docs = map fst (filter (\<lambda>(doc, score). float_lt score threshold)
                               (take 12 (vs query)))
         in search_pdf_from_db vs query k =
              \<lparr>res_context = join ([CHR 0x0A, CHR 0x0A] @ ''---'' @ [CHR 0x0A, CHR 0x0A])
                               (map context_block docs),
               res_citations = first_seen (map citation_of
                                 (filter (\<lambda>d. isinstance_int (doc_page d)) docs))\<rparr>))
   \<and> length (res_citations (search_pdf_from_db vs query k)) \<le> 12
   \<and> (12 \<le> k \<longrightarrow> search_pdf_from_db vs query k = search_pdf_from_db vs query 12)
   \<and> (take 12 (vs query) = take 12 (vs' query) \<longrightarrow>
        search_pdf_from_db vs query k = search_pdf_from_db vs' query k)"
proof (intro conjI impI)
  show "let docs = slice_to (map fst (filter (\<lambda>(doc, score). float_lt score threshold)
                                    (take 12 (vs query)))) k
    in search_pdf_from_db vs query k =
         \<lparr>res_context = join ([CHR 0x0A, CHR 0x0A] @ ''---'' @ [CHR 0x0A, CHR 0x0A])
                          (map context_block docs),
          res_citations = first_seen (map citation_of
                            (filter (\<lambda>d. isinstance_int (doc_page d)) docs))\<rparr>
       \<and> length docs \<le> 12"
    unfolding Let_def using search_exact[of vs query k] slice_first_12_le[of vs query k]
    by (rule conjI)
next
  assume k: "12 \<le> k"
  show "let docs = map fst (filter (\<lambda>(doc, score). float_lt score threshold)
                               (take 12 (vs query)))
         in search_pdf_from_db vs query k =
              \<lparr>res_context = join ([CHR 0x0A, CHR 0x0A] @ ''---'' @ [CHR 0x0A, CHR 0x0A])
                               (map context_block docs),
               res_citations = first_seen (map citation_of
                                 (filter (\<lambda>d. isinstance_int (doc_page d)) docs))\<rparr>"
    unfolding Let_def using search_exact[of vs query k] by (simp only: slice_large_k[OF k])
next
  show "length (res_citations (search_pdf_from_db vs query k)) \<le> 12"
    by (rule citations_fetch_bound)
next
  assume k: "12 \<le> k"
  have "search_pdf_from_db vs query 12 = search_pdf_from_db vs query k"
    by (simp only: search_exact[of vs query k] search_exact[of vs query 12]
          slice_large_k[OF k] slice_large_k[OF order_refl])
  then show "search_pdf_from_db vs query k = search_pdf_from_db vs query 12" by (rule sym)
next
  assume "take 12 (vs query) = take 12 (vs' query)"
  then show "search_pdf_from_db vs query k = search_pdf_from_db vs' query k"
    by (rule search_depends_on_first_12)
qed

theorem fetch_is_fixed_at_12_witness:
  "res_citations (search_pdf_from_db
      (\<lambda>q. map (\<lambda>i. (\<lparr>page_content = ''text'',
                        metadata = Some (map_of [(''source'', PStr ''A''), (''page'', PInt (int i))])\<rparr>,
                      Finite (1/10))) [0..<13]) ''q'' 20)
   = [''A, Page 1'', ''A, Page 2'', ''A, Page 3'', ''A, Page 4'', ''A, Page 5'', ''A, Page 6'',
      ''A, Page 7'', ''A, Page 8'', ''A, Page 9'', ''A, Page 10'', ''A, Page 11'', ''A, Page 12'']"
proof -
  let ?vs = "\<lambda>q::string. map (\<lambda>i. (\<lparr>page_content = ''text'',
                        metadata = Some (map_of [(''source'', PStr ''A''), (''page'', PInt (int i))])\<rparr>,
                      Finite (1/10))) [0..<13]"
  let ?docs = "map fst (filter (\<lambda>(doc, score). float_lt score threshold) (take 12 (?vs ''q'')))"
  have "(12::int) \<le> 20" by simp
  then have "search_pdf_from_db ?vs ''q'' 20 =
              \<lparr>res_context = join ([CHR 0x0A, CHR 0x0A] @ ''---'' @ [CHR 0x0A, CHR 0x0A])
                               (map context_block ?docs),
               res_citations = first_seen (map citation_of
                                 (filter (\<lambda>d. isinstance_int (doc_page d)) ?docs))\<rparr>"
    using fetch_is_fixed_at_12[where vs = ?vs and query = "''q''" and k = 20]
    unfolding Let_def by blast
  then have "res_citations (search_pdf_from_db ?vs ''q'' 20)
             = first_seen (map citation_of (filter (\<lambda>d. isinstance_int (doc_page d)) ?docs))"
    by (simp only: retrieval_result.select_convs)
  moreover have "first_seen (map citation_of (filter (\<lambda>d. isinstance_int (doc_page d)) ?docs))
    = [''A, Page 1'', ''A, Page 2'', ''A, Page 3'', ''A, Page 4'', ''A, Page 5'', ''A, Page 6'',
      ''A, Page 7'', ''A, Page 8'', ''A, Page 9'', ''A, Page 10'', ''A, Page 11'', ''A, Page 12'']"
    by code_simp
  ultimately show ?thesis by (rule trans)
qed

section \<open>Properties of ingestion\<close>

subsection \<open>Retry with backoff\<close>

lemma retry_loop_overloads:
  assumes "\<forall>i. a \<le> i \<and> i < a + k \<longrightarrow> (\<exists>x. f i = Raises x \<and> is_overload x)"
    and "int (a + k) \<le> m"
  shows "retry_loop f m a sl = retry_loop f m (a + k) (sl @ map (\<lambda>i. 10 * int i) [a + 1..<a + k + 1])"
  using assms
proof (induction k arbitrary: a sl)
  case 0
  then show ?case by simp
next
  case (Suc k)
  from Suc.prems(1) obtain x where x: "f a = Raises x" "is_overload x" by auto
  from Suc.prems(2) have le: "int a + 1 \<le> m" by simp
  have step: "retry_loop f m a sl = retry_loop f m (a + 1) (sl @ [10 * int (a + 1)])"
    using le by (subst retry_loop.simps) (auto simp: x)
  have "\<forall>i. a + 1 \<le> i \<and> i < (a + 1) + k \<longrightarrow> (\<exists>x. f i = Raises x \<and> is_overload x)"
    using Suc.prems(1) by simp
  moreover have "int ((a + 1) + k) \<le> m" using Suc.prems(2) by simp
  ultimately have "retry_loop f m (a + 1) (sl @ [10 * int (a + 1)])
      = retry_loop f m ((a + 1) + k)
          ((sl @ [10 * int (a + 1)]) @ map (\<lambda>i. 10 * int i) [(a + 1) + 1..<(a + 1) + k + 1])"
    by (rule Suc.IH)
  moreover have "[a + 1..<a + Suc k + 1] = (a + 1) # [(a + 1) + 1..<(a + 1) + k + 1]"
    by (simp add: upt_conv_Cons)
  ultimately show ?case using step by simp
qed

lemma create_after_overloads:
  assumes "\<forall>i<n. \<exists>x. f i = Raises x \<and> is_overload x" and "int n \<le> m"
  shows "create_chroma_with_retry f m = retry_loop f m n (map (\<lambda>i. 10 * int i) [1..<n + 1])"
proof -
  have "retry_loop f m 0 [] = retry_loop f m (0 + n) ([] @ map (\<lambda>i. 10 * int i) [0 + 1..<0 + n + 1])"
    using assms by (intro retry_loop_overloads) simp_all
  then show ?thesis by (simp add: create_chroma_with_retry_def)
qed

lemma retry_loop_returns: "f n = Returns db \<Longrightarrow> retry_loop f m n sl = (Inr db, sl)"
  by (subst retry_loop.simps) simp

lemma retry_loop_fatal:
  "f n = Raises x \<Longrightarrow> \<not> is_overload x \<Longrightarrow> retry_loop f m n sl = (Inl x, sl)"
  by (subst retry_loop.simps) simp

lemma retry_loop_exhausted:
  "f n = Raises x \<Longrightarrow> is_overload x \<Longrightarrow> int n = m \<Longrightarrow> retry_loop f m n sl = (Inl x, sl)"
  by (subst retry_loop.simps) auto

lemma lower_contains:
  assumes "str_contains sub s" shows "str_contains (lower sub) (lower s)"
proof -
  from assms obtain i where "i \<le> length s" "prefix sub (drop i s)"
    unfolding str_contains_iff by blast
  then have "prefix (map lower_char sub) (map lower_char (drop i s))" by (simp add: map_mono_prefix)
  then have "i \<le> length (lower s) \<and> prefix (lower sub) (drop i (lower s))"
    using \<open>i \<le> length s\<close> by (simp add: lower_def drop_map)
  then show ?thesis unfolding str_contains_iff by blast
qed

lemma overload_literal:
  "str_contains ''429'' x \<or> str_contains ''nocapacity'' x \<or> str_contains ''rate limit'' x
   \<Longrightarrow> is_overload x"
proof -
  have l: "lower ''429'' = ''429''" "lower ''nocapacity'' = ''nocapacity''"
    "lower ''rate limit'' = ''rate limit''" by code_simp+
  assume "str_contains ''429'' x \<or> str_contains ''nocapacity'' x \<or> str_contains ''rate limit'' x"
  then show ?thesis
    unfolding is_overload_def Let_def
    using lower_contains[of "''429''" x] lower_contains[of "''nocapacity''" x]
      lower_contains[of "''rate limit''" x]
    by (simp only: l) blast
qed

text \<open>
  Claim C4. \<open>create_chroma_with_retry\<close> retries only the errors of the overload class, those
  whose lower-cased message contains \<open>429\<close>, \<open>nocapacity\<close> or \<open>rate limit\<close> (so every message
  that contains one of them as written). Before the retry number \<open>n\<close> it waits
  \<open>10 * n\<close>: after \<open>n\<close> overload errors within the budget the waits are
  \<open>10 * 1, ..., 10 * n\<close>, and a success then returns the index, while an error of
  another class then leaves the function with no further wait (at once, with no wait at
  all, when it is the first outcome). When the overload error comes again after
  \<open>max_retries\<close> retries it is raised. Three overload errors followed by a success give
  the index with the waits 10, 20, 30 under the budget of 8.
\<close>

theorem retry_with_linear_backoff:
  "((\<forall>i<n. \<exists>x. f i = Raises x \<and> is_overload x) \<and> f n = Returns db \<and> int n \<le> max_retries
      \<longrightarrow> create_chroma_with_retry f max_retries = (Inr db, map (\<lambda>i. 10 * int i) [1..<n + 1]))
   \<and> ((\<forall>i<n. \<exists>x. f i = Raises x \<and> is_overload x) \<and> f n = Raises e \<and> \<not> is_overload e
        \<and> int n \<le> max_retries
      \<longrightarrow> create_chroma_with_retry f max_retries = (Inl e, map (\<lambda>i. 10 * int i) [1..<n + 1]))
   \<and> ((\<forall>i<n. \<exists>x. f i = Raises x \<and> is_overload x) \<and> f n = Raises e \<and> is_overload e
        \<and> int n = max_retries
      \<longrightarrow> create_chroma_with_retry f max_retries = (Inl e, map (\<lambda>i. 10 * int i) [1..<n + 1]))
   \<and> (f 0 = Raises e \<and> \<not> is_overload e \<longrightarrow> create_chroma_with_retry f max_retries = (Inl e, []))
   \<and> ((\<forall>i<3. \<exists>x. f i = Raises x \<and> is_overload x) \<and> f 3 = Returns db
      \<longrightarrow> create_chroma_with_retry f 8 = (Inr db, [10, 20, 30]))
   \<and> (str_contains ''429'' e \<or> str_contains ''nocapacity'' e \<or> str_contains ''rate limit'' e
      \<longrightarrow> is_overload e)"
proof (intro conjI impI)
  assume a: "(\<forall>i<n. \<exists>x. f i = Raises x \<and> is_overload x) \<and> f n = Returns db \<and> int n \<le> max_retries"
  then have "create_chroma_with_retry f max_retries
             = retry_loop f max_retries n (map (\<lambda>i. 10 * int i) [1..<n + 1])"
    by (intro create_after_overloads) simp_all
  with a show "create_chroma_with_retry f max_retries = (Inr db, map (\<lambda>i. 10 * int i) [1..<n + 1])"
    by (simp add: retry_loop_returns)
next
  assume a: "(\<forall>i<n. \<exists>x. f i = Raises x \<and> is_overload x) \<and> f n = Raises e \<and> \<not> is_overload e
        \<and> int n \<le> max_retries"
  then have "create_chroma_with_retry f max_retries
             = retry_loop f max_retries n (map (\<lambda>i. 10 * int i) [1..<n + 1])"
    by (intro create_after_overloads) simp_all
  with a show "create_chroma_with_retry f max_retries = (Inl e, map (\<lambda>i. 10 * int i) [1..<n + 1])"
    by (simp add: retry_loop_fatal)
next
  assume a: "(\<forall>i<n. \<exists>x. f i = Raises x \<and> is_overload x) \<and> f n = Raises e \<and> is_overload e
        \<and> int n = max_retries"
  then have "create_chroma_with_retry f max_retries
             = retry_loop f max_retries n (map (\<lambda>i. 10 * int i) [1..<n + 1])"
    by (intro create_after_overloads) simp_all
  with a show "create_chroma_with_retry f max_retries = (Inl e, map (\<lambda>i. 10 * int i) [1..<n + 1])"
    by (simp add: retry_loop_exhausted)
next
  assume "f 0 = Raises e \<and> \<not> is_overload e"
  then show "create_chroma_with_retry f max_retries = (Inl e, [])"
    by (simp add: create_chroma_with_retry_def retry_loop_fatal)
next
  assume a: "(\<forall>i<3. \<exists>x. f i = Raises x \<and> is_overload x) \<and> f 3 = Returns db"
  then have "create_chroma_with_retry f 8 = retry_loop f 8 3 (map (\<lambda>i. 10 * int i) [1..<3 + 1])"
    by (intro create_after_overloads) simp_all
  moreover have "map (\<lambda>i. 10 * int i) [1..<3 + 1] = [10, 20, 30]" by (simp add: upt_rec)
  ultimately show "create_chroma_with_retry f 8 = (Inr db, [10, 20, 30])"
    using a by (simp add: retry_loop_returns)
next
  assume "str_contains ''429'' e \<or> str_contains ''nocapacity'' e \<or> str_contains ''rate limit'' e"
  then show "is_overload e" by (rule overload_literal)
qed

theorem retry_with_linear_backoff_witness:
  "create_chroma_with_retry
     (\<lambda>n. if n < 3 then Raises ''Error code: 429 - NoCapacity'' else Returns ()) 8
   = (Inr (), [10, 20, 30])
   \<and> create_chroma_with_retry (\<lambda>n. Raises ''Connection refused'' :: unit outcome) 8
     = (Inl ''Connection refused'', [])"
proof -
  let ?f = "\<lambda>n::nat. if n < 3 then Raises ''Error code: 429 - NoCapacity'' else Returns ()"
  let ?g = "\<lambda>n::nat. Raises ''Connection refused'' :: unit outcome"
  have o: "is_overload ''Error code: 429 - NoCapacity''" by code_simp
  have n: "\<not> is_overload ''Connection refused''" by code_simp
  have "(\<forall>i<3. \<exists>x. ?f i = Raises x \<and> is_overload x) \<and> ?f 3 = Returns ()"
    using o by simp
  then have a: "create_chroma_with_retry ?f 8 = (Inr (), [10, 20, 30])"
    using retry_with_linear_backoff[where f = ?f and db = "()"] by blast
  have "?g 0 = Raises ''Connection refused'' \<and> \<not> is_overload ''Connection refused''"
    using n by simp
  then have b: "create_chroma_with_retry ?g 8 = (Inl ''Connection refused'', [])"
    using retry_with_linear_backoff[where f = ?g and e = "''Connection refused''" and max_retries = 8]
    by blast
  from a b show ?thesis by (rule conjI)
qed

subsection \<open>Index names\<close>

lemma name_char_underscore: "name_char CHR ''_''"
  by (simp add: name_char_def)

text \<open>
  Claim C7, as stated, fails: two distinct file names can give the same index name, here
  \<open>a b.pdf\<close> and \<open>a_b.pdf\<close>.
\<close>

theorem index_name_collision:
  "''a b.pdf'' \<noteq> ''a_b.pdf'' \<and> db_name_of ''a b.pdf'' = db_name_of ''a_b.pdf''"
  by code_simp

text \<open>
  Claim C7, amended. The index name is a function of the file name alone: it is
  \<open>chroma_\<close> followed by the stem of the file name in which every character outside
  \<open>[A-Za-z0-9_-]\<close> is replaced by an underscore, character by character, so the same file
  name always gives the same index name and the name has characters of that class only.
  Distinct file names may give the same index name.
\<close>

theorem index_name_derivation:
  "db_name_of filename =
     ''chroma_'' @ map (\<lambda>c. if name_char c then c else CHR ''_'') (path_stem filename)
   \<and> (\<forall>c \<in> set (sanitize_name filename). name_char c)
   \<and> length (sanitize_name filename) = length (path_stem filename)
   \<and> (filename = filename' \<longrightarrow> db_name_of filename = db_name_of filename')"
  by (auto simp: db_name_of_def sanitize_name_def name_char_underscore)

theorem index_name_derivation_witness:
  "db_name_of ''Annual Report (2023).pdf'' = ''chroma_Annual_Report__2023_''"
proof -
  have "db_name_of ''Annual Report (2023).pdf'' =
     ''chroma_'' @ map (\<lambda>c. if name_char c then c else CHR ''_'') (path_stem ''Annual Report (2023).pdf'')"
    using index_name_derivation[of "''Annual Report (2023).pdf''"] by blast
  moreover have "map (\<lambda>c. if name_char c then c else CHR ''_'') (path_stem ''Annual Report (2023).pdf'')
     = ''Annual_Report__2023_''" by code_simp
  ultimately show ?thesis by simp
qed

subsection \<open>Chunk metadata\<close>

lemma attach_metadata_length: "length (attach_metadata filename doc_type db_name chunks) = length chunks"
  by (simp add: attach_metadata_def)

lemma attach_metadata_nth:
  assumes "i < length chunks"
  shows "attach_metadata filename doc_type db_name chunks ! i =
     (chunks ! i)\<lparr>metadata := Some (chunk_metadata filename doc_type db_name i (doc_meta (chunks ! i)))\<rparr>"
  using assms by (simp add: attach_metadata_def nth_enumerate_eq)

lemma chunk_metadata_fixed:
  "chunk_metadata filename doc_type db_name i m ''source'' = Some (PStr filename)"
  "chunk_metadata filename doc_type db_name i m ''doc_type'' = Some doc_type"
  "chunk_metadata filename doc_type db_name i m ''db_name'' = Some (PStr db_name)"
  "chunk_metadata filename doc_type db_name i m ''chunk_id'' = Some (PInt (int i))"
  by (simp_all add: chunk_metadata_def Let_def split: option.split)

lemma chunk_metadata_page:
  "chunk_metadata filename doc_type db_name i m ''page'' =
     (case m ''page'' of None \<Rightarrow> Some (PStr ''N/A'') | Some p \<Rightarrow> Some p)"
  by (simp add: chunk_metadata_def Let_def split: option.split)

lemma chunk_metadata_other:
  "key \<notin> {''source'', ''doc_type'', ''db_name'', ''chunk_id'', ''page''} \<Longrightarrow>
   chunk_metadata filename doc_type db_name i m key = m key"
  by (simp add: chunk_metadata_def Let_def split: option.split)

lemma dom_update_generic:
  assumes "kp \<notin> {k1, k2, k3, k4}"
  shows "dom (case (m(k1 \<mapsto> v1, k2 \<mapsto> v2, k3 \<mapsto> v3, k4 \<mapsto> v4)) kp of
                None \<Rightarrow> (m(k1 \<mapsto> v1, k2 \<mapsto> v2, k3 \<mapsto> v3, k4 \<mapsto> v4))(kp \<mapsto> d)
              | Some p \<Rightarrow> m(k1 \<mapsto> v1, k2 \<mapsto> v2, k3 \<mapsto> v3, k4 \<mapsto> v4))
         = dom m \<union> {k1, k2, k3, k4, kp}"
proof -
  from assms have same: "(m(k1 \<mapsto> v1, k2 \<mapsto> v2, k3 \<mapsto> v3, k4 \<mapsto> v4)) kp = m kp" by simp
  show ?thesis
  proof (cases "m kp")
    case None
    with same show ?thesis by auto
  next
    case (Some p)
    then have "kp \<in> dom m" by auto
    with same Some show ?thesis by auto
  qed
qed

lemma page_key_distinct: "''page'' \<notin> {''source'', ''doc_type'', ''db_name'', ''chunk_id''}"
  by simp

lemma chunk_metadata_dom:
  "dom (chunk_metadata filename doc_type db_name i m) =
     dom m \<union> {''source'', ''doc_type'', ''db_name'', ''chunk_id'', ''page''}"
  unfolding chunk_metadata_def Let_def
  by (rule dom_update_generic[OF page_key_distinct])

lemma doc_meta_update: "doc_meta (c\<lparr>metadata := Some m\<rparr>) = m"
  by (simp add: doc_meta_def)

lemma load_doc_type:
  assumes "load_file_with_real_pages e p = Returns (docs, t)" and "docs \<noteq> []"
  shows "t = PStr ''pdf'' \<or> t = PStr ''docx''"
  using assms unfolding load_file_with_real_pages_def Let_def
  by (auto split: if_splits outcome.splits)

text \<open>
  Claim C8, as stated, fails: the metadata of a produced chunk need not have exactly the
  five keys. The loop updates the metadata the chunk already has, so a key the loader
  put there, as \<open>total_pages\<close> here, is still there afterwards.
\<close>

theorem metadata_keeps_other_keys:
  "dom (doc_meta (hd (attach_metadata ''a.pdf'' (PStr ''pdf'') ''chroma_a''
          [\<lparr>page_content = ''text'',
            metadata = Some (map_of [(''page'', PInt 0), (''total_pages'', PInt 3)])\<rparr>])))
   \<noteq> {''source'', ''doc_type'', ''db_name'', ''chunk_id'', ''page''}"
proof -
  let ?m = "doc_meta (hd (attach_metadata ''a.pdf'' (PStr ''pdf'') ''chroma_a''
          [\<lparr>page_content = ''text'',
            metadata = Some (map_of [(''page'', PInt 0), (''total_pages'', PInt 3)])\<rparr>]))"
  have "?m ''total_pages'' = Some (PInt 3)"
    by (simp add: attach_metadata_def enumerate_eq_zip doc_meta_def chunk_metadata_def Let_def)
  then have "''total_pages'' \<in> dom ?m" by (rule domI)
  moreover have "''total_pages'' \<notin> {''source'', ''doc_type'', ''db_name'', ''chunk_id'', ''page''}"
    by simp
  ultimately show ?thesis by metis
qed

text \<open>
  Claim C8, amended. Every produced chunk keeps its text and carries metadata in which
  \<open>source\<close> is the file name, \<open>doc_type\<close> the type the loader returned (\<open>pdf\<close> or \<open>docx\<close>
  for a file that gave pages), \<open>db_name\<close> the index name and \<open>chunk_id\<close> the position of
  the chunk among the chunks of its document (0, 1, 2, ...: strictly increasing, and
  local to the document); \<open>page\<close> is the page the chunk already carried when it has one,
  and the text \<open>N/A\<close> when it has none, never a default of zero. Every other key the
  chunk already carried is kept unchanged: the keys are the five together with the keys
  that were there before.
\<close>

theorem chunk_metadata_attached:
  assumes "i < length chunks"
    and "c = attach_metadata filename doc_type db_name chunks ! i"
  shows "length (attach_metadata filename doc_type db_name chunks) = length chunks
   \<and> page_content c = page_content (chunks ! i)
   \<and> doc_meta c ''source'' = Some (PStr filename)
   \<and> doc_meta c ''doc_type'' = Some doc_type
   \<and> doc_meta c ''db_name'' = Some (PStr db_name)
   \<and> doc_meta c ''chunk_id'' = Some (PInt (int i))
   \<and> doc_meta c ''page'' =
       (case doc_meta (chunks ! i) ''page'' of None \<Rightarrow> Some (PStr ''N/A'') | Some p \<Rightarrow> Some p)
   \<and> (key \<notin> {''source'', ''doc_type'', ''db_name'', ''chunk_id'', ''page''} \<longrightarrow>
        doc_meta c key = doc_meta (chunks ! i) key)
   \<and> dom (doc_meta c) =
       dom (doc_meta (chunks ! i)) \<union> {''source'', ''doc_type'', ''db_name'', ''chunk_id'', ''page''}
   \<and> (load_file_with_real_pages e p = Returns (docs, doc_type) \<and> docs \<noteq> [] \<longrightarrow>
        doc_type = PStr ''pdf'' \<or> doc_type = PStr ''docx'')"
proof -
  have c: "c = (chunks ! i)\<lparr>metadata :=
              Some (chunk_metadata filename doc_type db_name i (doc_meta (chunks ! i)))\<rparr>"
    unfolding assms(2) using assms(1) by (rule attach_metadata_nth)
  have m: "doc_meta c = chunk_metadata filename doc_type db_name i (doc_meta (chunks ! i))"
    unfolding c by (rule doc_meta_update)
  show ?thesis
  proof (intro conjI impI)
    show "length (attach_metadata filename doc_type db_name chunks) = length chunks"
      by (rule attach_metadata_length)
    show "page_content c = page_content (chunks ! i)" by (simp add: c)
    show "doc_meta c ''source'' = Some (PStr filename)" unfolding m by (rule chunk_metadata_fixed)
    show "doc_meta c ''doc_type'' = Some doc_type" unfolding m by (rule chunk_metadata_fixed)
    show "doc_meta c ''db_name'' = Some (PStr db_name)" unfolding m by (rule chunk_metadata_fixed)
    show "doc_meta c ''chunk_id'' = Some (PInt (int i))" unfolding m by (rule chunk_metadata_fixed)
    show "doc_meta c ''page'' =
       (case doc_meta (chunks ! i) ''page'' of None \<Rightarrow> Some (PStr ''N/A'') | Some p \<Rightarrow> Some p)"
      unfolding m by (rule chunk_metadata_page)
    show "dom (doc_meta c) =
       dom (doc_meta (chunks ! i)) \<union> {''source'', ''doc_type'', ''db_name'', ''chunk_id'', ''page''}"
      unfolding m by (rule chunk_metadata_dom)
  next
    assume "key \<notin> {''source'', ''doc_type'', ''db_name'', ''chunk_id'', ''page''}"
    then show "doc_meta c key = doc_meta (chunks ! i) key"
      unfolding m by (rule chunk_metadata_other)
  next
    assume "load_file_with_real_pages e p = Returns (docs, doc_type) \<and> docs \<noteq> []"
    then show "doc_type = PStr ''pdf'' \<or> doc_type = PStr ''docx''"
      using load_doc_type by blast
  qed
qed

theorem chunk_metadata_attached_witness:
  "doc_meta (attach_metadata ''a.pdf'' (PStr ''pdf'') ''chroma_a''
       [\<lparr>page_content = ''one'', metadata = Some (map_of [(''page'', PInt 0)])\<rparr>,
        \<lparr>page_content = ''two'', metadata = None\<rparr>] ! 1) ''chunk_id'' = Some (PInt 1)
   \<and> doc_meta (attach_metadata ''a.pdf'' (PStr ''pdf'') ''chroma_a''
       [\<lparr>page_content = ''one'', metadata = Some (map_of [(''page'', PInt 0)])\<rparr>,
        \<lparr>page_content = ''two'', metadata = None\<rparr>] ! 1) ''page'' = Some (PStr ''N/A'')
   \<and> doc_meta (attach_metadata ''a.pdf'' (PStr ''pdf'') ''chroma_a''
       [\<lparr>page_content = ''one'', metadata = Some (map_of [(''page'', PInt 0)])\<rparr>,
        \<lparr>page_content = ''two'', metadata = None\<rparr>] ! 0) ''page'' = Some (PInt 0)"
proof -
  let ?chunks = "[\<lparr>page_content = ''one'', metadata = Some (map_of [(''page'', PInt 0)])\<rparr>,
        \<lparr>page_content = ''two'', metadata = None\<rparr>]"
  have l1: "(1::nat) < length ?chunks" and l0: "(0::nat) < length ?chunks" by simp_all
  note t1 = chunk_metadata_attached[OF l1 refl, of "''a.pdf''" "PStr ''pdf''" "''chroma_a''"]
  note t0 = chunk_metadata_attached[OF l0 refl, of "''a.pdf''" "PStr ''pdf''" "''chroma_a''"]
  have a: "doc_meta (attach_metadata ''a.pdf'' (PStr ''pdf'') ''chroma_a'' ?chunks ! 1) ''chunk_id''
           = Some (PInt (int 1))"
    using t1 by blast
  have "doc_meta (attach_metadata ''a.pdf'' (PStr ''pdf'') ''chroma_a'' ?chunks ! 1) ''page''
        = (case doc_meta (?chunks ! 1) ''page'' of None \<Rightarrow> Some (PStr ''N/A'') | Some p \<Rightarrow> Some p)"
    using t1 by blast
  then have b: "doc_meta (attach_metadata ''a.pdf'' (PStr ''pdf'') ''chroma_a'' ?chunks ! 1) ''page''
        = Some (PStr ''N/A'')"
    by (simp add: doc_meta_def)
  have "doc_meta (attach_metadata ''a.pdf'' (PStr ''pdf'') ''chroma_a'' ?chunks ! 0) ''page''
        = (case doc_meta (?chunks ! 0) ''page'' of None \<Rightarrow> Some (PStr ''N/A'') | Some p \<Rightarrow> Some p)"
    using t0 by blast
  then have c: "doc_meta (attach_metadata ''a.pdf'' (PStr ''pdf'') ''chroma_a'' ?chunks ! 0) ''page''
        = Some (PInt 0)"
    by (simp add: doc_meta_def)
  from a b c show ?thesis by simp
qed

subsection \<open>Skipped files\<close>

lemma process_file_unsupported:
  "\<not> (endswith (lower f) ''.pdf'' \<or> endswith (lower f) ''.docx'') \<Longrightarrow>
   process_file e st f = Returns st"
  unfolding process_file_def by simp

lemma process_file_empty:
  assumes "endswith (lower f) ''.pdf'' \<or> endswith (lower f) ''.docx''"
    and "load_file_with_real_pages e (''./pdfs/'' @ f) = Returns ([], t)"
  shows "process_file e st f = Returns (st\<lparr>skipped := skipped st @ [f]\<rparr>)"
  unfolding process_file_def Let_def using assms by simp

lemma process_file_load_raises:
  assumes "endswith (lower f) ''.pdf'' \<or> endswith (lower f) ''.docx''"
    and "load_file_with_real_pages e (''./pdfs/'' @ f) = Raises x"
  shows "process_file e st f = Raises x"
  unfolding process_file_def Let_def using assms by simp

lemma load_unsupported:
  "lower (path_suffix p) \<noteq> ''.pdf'' \<and> lower (path_suffix p) \<noteq> ''.docx'' \<Longrightarrow>
   load_file_with_real_pages e p = Returns ([], PNone)"
  unfolding load_file_with_real_pages_def Let_def by simp

text \<open>
  Claim C9, as stated, fails for a file of 0 bytes with the extension \<open>.pdf\<close>: the script
  has no test of the size and hands the file to the PDF loader, and nothing catches what
  the loader raises. With a loader that raises on the empty file (as the PDF reader does,
  with the message below) the run ends there and the file after it is not ingested.
\<close>

theorem empty_pdf_aborts_ingestion:
  "process_files
     \<lparr>pdf_load = (\<lambda>p. if p = ''./pdfs/empty.pdf'' then Raises ''Cannot read an empty file''
                       else Returns [\<lparr>page_content = ''text'',
                                      metadata = Some (map_of [(''page'', PInt 0)])\<rparr>]),
      path_exists = (\<lambda>p. False),
      docx_convert = (\<lambda>a b. Returns ()),
      split_documents = (\<lambda>ds. ds),
      from_documents = (\<lambda>d c n. Returns ())\<rparr>
     \<lparr>created = [], skipped = [], slept = []\<rparr>
     [''empty.pdf'', ''b.pdf'']
   = Raises ''Cannot read an empty file''"
proof -
  have a: "endswith (lower ''empty.pdf'') ''.pdf''" by code_simp
  have b: "lower (path_suffix ''./pdfs/empty.pdf'') = ''.pdf''" by code_simp
  show ?thesis
    by (simp add: process_file_def Let_def load_file_with_real_pages_def a b)
qed

text \<open>
  Claim C9, amended. A file whose name does not end in \<open>.pdf\<close> or \<open>.docx\<close> (in any case
  of letters) is passed over without raising and without any effect, and loading a path
  with another extension yields an empty page sequence; a file whose loading yields an
  empty page sequence is skipped with the printed notice. In both cases the ingestion of
  the files after it proceeds as if the file were not there, but for the notice. When
  loading a file raises, the exception ends the run.
\<close>

theorem unsupported_files_skipped:
  "(\<not> (endswith (lower f) ''.pdf'' \<or> endswith (lower f) ''.docx'') \<longrightarrow>
      process_file e st f = Returns st
      \<and> process_files e st (f # rest) = process_files e st rest)
   \<and> (lower (path_suffix p) \<noteq> ''.pdf'' \<and> lower (path_suffix p) \<noteq> ''.docx'' \<longrightarrow>
      load_file_with_real_pages e p = Returns ([], PNone))
   \<and> ((endswith (lower f) ''.pdf'' \<or> endswith (lower f) ''.docx'')
        \<and> load_file_with_real_pages e (''./pdfs/'' @ f) = Returns ([], t) \<longrightarrow>
      process_file e st f = Returns (st\<lparr>skipped := skipped st @ [f]\<rparr>)
      \<and> process_files e st (f # rest) = process_files e (st\<lparr>skipped := skipped st @ [f]\<rparr>) rest)
   \<and> ((endswith (lower f) ''.pdf'' \<or> endswith (lower f) ''.docx'')
        \<and> load_file_with_real_pages e (''./pdfs/'' @ f) = Raises x \<longrightarrow>
      process_files e st (f # rest) = Raises x)"
proof (intro conjI impI)
  assume a: "\<not> (endswith (lower f) ''.pdf'' \<or> endswith (lower f) ''.docx'')"
  then show u: "process_file e st f = Returns st" by (rule process_file_unsupported)
  show "process_files e st (f # rest) = process_files e st rest" by (simp add: u)
next
  assume "lower (path_suffix p) \<noteq> ''.pdf'' \<and> lower (path_suffix p) \<noteq> ''.docx''"
  then show "load_file_with_real_pages e p = Returns ([], PNone)" by (rule load_unsupported)
next
  assume a: "(endswith (lower f) ''.pdf'' \<or> endswith (lower f) ''.docx'')
        \<and> load_file_with_real_pages e (''./pdfs/'' @ f) = Returns ([], t)"
  then show u: "process_file e st f = Returns (st\<lparr>skipped := skipped st @ [f]\<rparr>)"
    using process_file_empty by blast
  show "process_files e st (f # rest) = process_files e (st\<lparr>skipped := skipped st @ [f]\<rparr>) rest"
    by (simp add: u)
next
  assume a: "(endswith (lower f) ''.pdf'' \<or> endswith (lower f) ''.docx'')
        \<and> load_file_with_real_pages e (''./pdfs/'' @ f) = Raises x"
  then have "process_file e st f = Raises x" using process_file_load_raises by blast
  then show "process_files e st (f # rest) = Raises x" by simp
qed

theorem unsupported_files_skipped_witness:
  "process_files
     \<lparr>pdf_load = (\<lambda>p. Returns []),
      path_exists = (\<lambda>p. False),
      docx_convert = (\<lambda>a b. Returns ()),
      split_documents = (\<lambda>ds. ds),
      from_documents = (\<lambda>d c n. Returns ())\<rparr>
     \<lparr>created = [], skipped = [], slept = []\<rparr>
     [''notes.txt'', ''blank.pdf'']
   = Returns \<lparr>created = [], skipped = [''blank.pdf''], slept = []\<rparr>"
proof -
  let ?e = "\<lparr>pdf_load = (\<lambda>p. Returns []),
      path_exists = (\<lambda>p. False),
      docx_convert = (\<lambda>a b. Returns ()),
      split_documents = (\<lambda>ds. ds),
      from_documents = (\<lambda>d c n. Returns ())\<rparr>"
  let ?st = "\<lparr>created = [], skipped = [], slept = []\<rparr>"
  have a: "\<not> (endswith (lower ''notes.txt'') ''.pdf'' \<or> endswith (lower ''notes.txt'') ''.docx'')"
    by code_simp
  have b: "endswith (lower ''blank.pdf'') ''.pdf'' \<or> endswith (lower ''blank.pdf'') ''.docx''"
    by code_simp
  have s: "lower (path_suffix (''./pdfs/'' @ ''blank.pdf'')) = ''.pdf''" by code_simp
  then have l: "load_file_with_real_pages ?e (''./pdfs/'' @ ''blank.pdf'') = Returns ([], PStr ''pdf'')"
    unfolding load_file_with_real_pages_def Let_def by simp
  have "process_files ?e ?st (''notes.txt'' # [''blank.pdf'']) = process_files ?e ?st [''blank.pdf'']"
    using unsupported_files_skipped[where f = "''notes.txt''" and e = ?e and st = ?st
        and rest = "[''blank.pdf'']"] a by blast
  moreover have "process_files ?e ?st (''blank.pdf'' # [])
      = process_files ?e (?st\<lparr>skipped := skipped ?st @ [''blank.pdf'']\<rparr>) []"
    using unsupported_files_skipped[where f = "''blank.pdf''" and e = ?e and st = ?st
        and rest = "[]" and t = "PStr ''pdf''"] b l by blast
  ultimately show ?thesis by simp
qed

end
